theory Spec2Isabelle
  imports Main "HOL-Library.Word"
begin

unbundle bit_operations_syntax

section \<open>Python values used by \<open>mta_extractor.py\<close>\<close>

text \<open>
  A \<open>bytes\<close> object is a list of 8-bit words, a Python \<open>int\<close> is an \<open>int\<close>, and
  a \<open>str\<close> is a \<open>string\<close> whose characters stand for the code points below 256
  (the names handled by the program are decoded as ASCII, so they lie in this range).
  Exceptions are values of the type \<open>error\<close>; a function that can raise returns
  \<open>error + 'a\<close>, with \<open>Inl\<close> for the exception.
\<close>

type_synonym byte = "8 word"

datatype error = ValueError | IndexError | OSError

subsection \<open>Slices\<close>

text \<open>
  \<open>xs[i:j]\<close>: a negative bound counts from the end, and both bounds are clamped to
  \<open>0..len(xs)\<close>; a slice never raises. \<open>slice_positions\<close> lists the positions of
  \<open>xs\<close> that the slice reads.
\<close>

definition slice_bound :: "nat \<Rightarrow> int \<Rightarrow> nat" where
  "slice_bound n i = (if i < 0 then nat (max 0 (int n + i)) else min n (nat i))"

definition slice_positions :: "nat \<Rightarrow> int \<Rightarrow> int \<Rightarrow> nat list" where
  "slice_positions n i j = [slice_bound n i ..< slice_bound n j]"

definition py_slice :: "'a list \<Rightarrow> int \<Rightarrow> int \<Rightarrow> 'a list" where
  "py_slice xs i j = map (\<lambda>p. xs ! p) (slice_positions (length xs) i j)"

subsection \<open>\<open>int.from_bytes(bs, "big")\<close>\<close>

definition from_bytes_big :: "byte list \<Rightarrow> int" where
  "from_bytes_big bs = foldl (\<lambda>acc b. acc * 256 + uint b) 0 bs"

section \<open>Container Locator\<close>

text \<open>
  \<^verbatim>\<open>
  def find_dwav_section(data):
      if len(data) < 0xC8:
          return None
      dwav_section_start = int.from_bytes(data[0xC4:0xC8], "big")
      if dwav_section_start >= len(data):
          return None
      return dwav_section_start
  \<close>
\<close>

definition find_dwav_section :: "byte list \<Rightarrow> int option" where
  "find_dwav_section data =
     (if length data < 0xC8 then None
      else let dwav_section_start = from_bytes_big (py_slice data 0xC4 0xC8)
           in if dwav_section_start \<ge> int (length data) then None
              else Some dwav_section_start)"

text \<open>The big-endian unsigned integers of the format, read position by position.\<close>

definition be16_at :: "byte list \<Rightarrow> nat \<Rightarrow> int" where
  "be16_at data p = uint (data ! p) * 256 + uint (data ! (p + 1))"

definition be32_at :: "byte list \<Rightarrow> nat \<Rightarrow> int" where
  "be32_at data p =
     uint (data ! p) * 16777216 + uint (data ! (p + 1)) * 65536
     + uint (data ! (p + 2)) * 256 + uint (data ! (p + 3))"

section \<open>Facts about slices and big-endian integers\<close>

lemma slice_bound_le: "slice_bound n i \<le> n"
  by (auto simp: slice_bound_def)

lemma slice_positions_lt: "p \<in> set (slice_positions n i j) \<Longrightarrow> p < n"
  using slice_bound_le [of n j] by (simp add: slice_positions_def)

lemma slice_bound_nonneg: "0 \<le> i \<Longrightarrow> i \<le> int n \<Longrightarrow> slice_bound n i = nat i"
  by (simp add: slice_bound_def)

lemma slice_positions_inside:
  "0 \<le> i \<Longrightarrow> i \<le> j \<Longrightarrow> j \<le> int n \<Longrightarrow> slice_positions n i j = [nat i ..< nat j]"
  by (simp add: slice_positions_def slice_bound_nonneg)

lemma py_slice_inside:
  "0 \<le> i \<Longrightarrow> i \<le> j \<Longrightarrow> j \<le> int (length xs) \<Longrightarrow>
   py_slice xs i j = map (\<lambda>p. xs ! p) [nat i ..< nat j]"
  by (simp add: py_slice_def slice_positions_inside)

lemma py_slice_take_drop:
  "py_slice xs i j =
   take (slice_bound (length xs) j - slice_bound (length xs) i) (drop (slice_bound (length xs) i) xs)"
proof -
  let ?lo = "slice_bound (length xs) i" and ?hi = "slice_bound (length xs) j"
  have hi: "?hi \<le> length xs" by (rule slice_bound_le)
  show ?thesis
  proof (cases "?lo \<le> ?hi")
    case True
    have "take (?hi - ?lo) (drop ?lo xs) = map (\<lambda>p. xs ! p) [?lo ..< ?hi]"
      using True hi by (intro nth_equalityI) auto
    then show ?thesis by (simp add: py_slice_def slice_positions_def)
  next
    case False
    then show ?thesis by (simp add: py_slice_def slice_positions_def)
  qed
qed

lemma upt_4: "[n ..< n + 4] = [n, n + 1, n + 2, n + 3]"
  by (simp add: upt_rec)

lemma upt_2: "[n ..< n + 2] = [n, n + 1]"
  by (simp add: upt_rec)

lemma py_slice_4:
  assumes "int p + 4 \<le> int (length xs)"
  shows "py_slice xs (int p) (int p + 4) = [xs ! p, xs ! (p + 1), xs ! (p + 2), xs ! (p + 3)]"
proof -
  have "py_slice xs (int p) (int p + 4) = map (\<lambda>q. xs ! q) [p ..< p + 4]"
    using assms by (simp add: py_slice_inside nat_add_distrib)
  then show ?thesis by (simp only: upt_4 list.map)
qed

lemma py_slice_2:
  assumes "int p + 2 \<le> int (length xs)"
  shows "py_slice xs (int p) (int p + 2) = [xs ! p, xs ! (p + 1)]"
proof -
  have "py_slice xs (int p) (int p + 2) = map (\<lambda>q. xs ! q) [p ..< p + 2]"
    using assms by (simp add: py_slice_inside nat_add_distrib)
  then show ?thesis by (simp only: upt_2 list.map)
qed

lemma from_bytes_big_4:
  "from_bytes_big [a, b, c, d] = uint a * 16777216 + uint b * 65536 + uint c * 256 + uint d"
  by (simp add: from_bytes_big_def)

lemma from_bytes_big_2: "from_bytes_big [a, b] = uint a * 256 + uint b"
  by (simp add: from_bytes_big_def)

lemma from_bytes_big_nonneg_aux: "0 \<le> acc \<Longrightarrow> 0 \<le> foldl (\<lambda>acc b. acc * 256 + uint (b :: byte)) acc bs"
  by (induction bs arbitrary: acc) simp_all

lemma from_bytes_big_nonneg: "0 \<le> from_bytes_big bs"
  by (simp add: from_bytes_big_def from_bytes_big_nonneg_aux)

lemma be32_slice:
  "int p + 4 \<le> int (length data) \<Longrightarrow>
   from_bytes_big (py_slice data (int p) (int p + 4)) = be32_at data p"
  by (simp add: py_slice_4 from_bytes_big_4 be32_at_def)

lemma be16_slice:
  "int p + 2 \<le> int (length data) \<Longrightarrow>
   from_bytes_big (py_slice data (int p) (int p + 2)) = be16_at data p"
  by (simp add: py_slice_2 from_bytes_big_2 be16_at_def)

lemma be16_at_bound: "0 \<le> be16_at data p \<and> be16_at data p < 65536"
proof -
  have "uint (data ! p) < 256" "uint (data ! (p + 1)) < 256"
    using uint_bounded [of "data ! p"] uint_bounded [of "data ! (p + 1)"] by simp_all
  then show ?thesis by (simp add: be16_at_def)
qed

section \<open>Container Locator: results\<close>

lemma dwav_pointer_slice:
  "\<not> length data < 0xC8 \<Longrightarrow> from_bytes_big (py_slice data 0xC4 0xC8) = be32_at data 0xC4"
  using be32_slice [of "0xC4" data] by simp

text \<open>
  C5: \<open>find_dwav_section\<close> returns \<open>None\<close> exactly when the container is shorter
  than 0xC8 bytes or the big-endian 32-bit integer at bytes [0xC4, 0xC8) is at least the
  container length; otherwise it returns that integer, which is then nonnegative and
  strictly below the container length. Being a HOL function of the bytes alone, the
  model has no state to change and gives one result per container.
\<close>

theorem find_dwav_section_spec:
  "(find_dwav_section data = None \<longleftrightarrow>
      length data < 0xC8 \<or> be32_at data 0xC4 \<ge> int (length data))
   \<and> (find_dwav_section data \<noteq> None \<longrightarrow>
      find_dwav_section data = Some (be32_at data 0xC4)
      \<and> 0 \<le> be32_at data 0xC4 \<and> be32_at data 0xC4 < int (length data))"
proof (cases "length data < 0xC8")
  case True
  then show ?thesis by (simp add: find_dwav_section_def)
next
  case False
  have nn: "0 \<le> be32_at data 0xC4"
    using from_bytes_big_nonneg [of "py_slice data 0xC4 0xC8"]
    by (simp only: dwav_pointer_slice [OF False])
  show ?thesis
    using False nn by (simp add: find_dwav_section_def dwav_pointer_slice Let_def)
qed

theorem find_dwav_section_spec_witness:
  "find_dwav_section (replicate 196 0 @ [0, 0, 0, 100]) \<noteq> None
   \<and> find_dwav_section (replicate 196 0 @ [0, 0, 0, 100]) = Some 100
   \<and> find_dwav_section (replicate 196 0 @ [0, 0, 0, 200]) = None
   \<and> find_dwav_section (replicate 199 7) = None"
proof -
  let ?d = "replicate 196 0 @ [0, 0, 0, 100 :: byte]"
  have v: "be32_at ?d 0xC4 = 100"
    by (simp add: be32_at_def nth_append)
  have v2: "be32_at (replicate 196 0 @ [0, 0, 0, 200 :: byte]) 0xC4 = 200"
    by (simp add: be32_at_def nth_append)
  have a: "find_dwav_section ?d \<noteq> None"
    using find_dwav_section_spec [of ?d] v by simp
  have b: "find_dwav_section ?d = Some 100"
    using find_dwav_section_spec [of ?d] a v by simp
  have c: "find_dwav_section (replicate 196 0 @ [0, 0, 0, 200]) = None"
    using find_dwav_section_spec [of "replicate 196 0 @ [0, 0, 0, 200]"] v2 by simp
  have d: "find_dwav_section (replicate 199 7) = None"
    using find_dwav_section_spec [of "replicate 199 7"] by simp
  from a b c d show ?thesis by blast
qed

section \<open>Sample Header Parser: rate and channels\<close>

text \<open>
  \<open>xs[i]\<close> raises \<open>IndexError\<close> outside \<open>-len(xs) .. len(xs) - 1\<close>.
\<close>

definition py_index :: "'a list \<Rightarrow> int \<Rightarrow> error + 'a" where
  "py_index xs i =
     (let k = (if i < 0 then i + int (length xs) else i)
      in if 0 \<le> k \<and> k < int (length xs) then Inr (xs ! nat k) else Inl IndexError)"

text \<open>
  \<^verbatim>\<open>
  def parse_audio_header(header):
      sample_rate = int.from_bytes(header[0x36:0x38], "big")
      if sample_rate == 0:
          sample_rate = 44100
      channels_byte = header[0x49]
      channels = 2 if channels_byte == 2 else 1
      return sample_rate, channels
  \<close>
\<close>

definition parse_audio_header :: "byte list \<Rightarrow> error + (int \<times> int)" where
  "parse_audio_header header =
     (let sample_rate0 = from_bytes_big (py_slice header 0x36 0x38);
          sample_rate = (if sample_rate0 = 0 then 44100 else sample_rate0)
      in case py_index header 0x49 of
           Inl e \<Rightarrow> Inl e
         | Inr channels_byte \<Rightarrow> Inr (sample_rate, if channels_byte = 2 then 2 else 1))"

lemma header_rate_slice:
  "length header = 80 \<Longrightarrow> from_bytes_big (py_slice header 0x36 0x38) = be16_at header 0x36"
  using be16_slice [of "0x36" header] by simp

lemma header_channel_byte: "length header = 80 \<Longrightarrow> py_index header 0x49 = Inr (header ! 0x49)"
  by (simp add: py_index_def)

text \<open>
  C6: for an 80-byte header, \<open>parse_audio_header\<close> returns normally; the sample rate
  is the big-endian 16-bit unsigned integer at header bytes [0x36, 0x38), with 0
  replaced by 44100, so it is never 0; the channel count is 2 when the byte at 0x49 is
  2 and 1 for every other value of that byte.
\<close>

theorem parse_audio_header_spec:
  assumes "length header = 80"
  shows "\<exists>sample_rate channels.
           parse_audio_header header = Inr (sample_rate, channels)
           \<and> sample_rate = (if be16_at header 0x36 = 0 then 44100 else be16_at header 0x36)
           \<and> sample_rate \<noteq> 0 \<and> 1 \<le> sample_rate \<and> sample_rate \<le> 65535
           \<and> channels = (if header ! 0x49 = 2 then 2 else 1)"
proof -
  let ?r = "be16_at header 0x36"
  have b: "0 \<le> ?r \<and> ?r < 65536" by (rule be16_at_bound)
  have "parse_audio_header header =
          Inr (if ?r = 0 then 44100 else ?r, if header ! 0x49 = 2 then 2 else 1)"
    using assms by (simp add: parse_audio_header_def header_rate_slice header_channel_byte)
  moreover have "(if ?r = 0 then 44100 else ?r) \<noteq> 0 \<and> 1 \<le> (if ?r = 0 then 44100 else ?r)
                 \<and> (if ?r = 0 then 44100 else ?r) \<le> 65535"
    using b by auto
  ultimately show ?thesis by blast
qed

theorem parse_audio_header_spec_witness:
  "length (replicate 54 0 @ [0x56, 0x22] @ replicate 17 0 @ [2 :: byte] @ replicate 6 0) = 80
   \<and> parse_audio_header (replicate 54 0 @ [0x56, 0x22] @ replicate 17 0 @ [2] @ replicate 6 0)
       = Inr (22050, 2)
   \<and> parse_audio_header (replicate 73 0 @ [1] @ replicate 6 0) = Inr (44100, 1)"
proof -
  let ?h = "replicate 54 0 @ [0x56, 0x22] @ replicate 17 0 @ [2 :: byte] @ replicate 6 0"
  let ?g = "replicate 73 0 @ [1 :: byte] @ replicate 6 0"
  have lh: "length ?h = 80" and lg: "length ?g = 80" by simp_all
  have rh: "be16_at ?h 0x36 = 22050" and ch: "?h ! 0x49 = 2"
    by (simp_all add: be16_at_def nth_append)
  have rg: "be16_at ?g 0x36 = 0" and cg: "?g ! 0x49 = 1"
    by (simp_all add: be16_at_def nth_append)
  have a: "parse_audio_header ?h = Inr (22050, 2)"
    using parse_audio_header_spec [OF lh] rh ch by auto
  have b: "parse_audio_header ?g = Inr (44100, 1)"
    using parse_audio_header_spec [OF lg] rg cg by auto
  from lh a b show ?thesis by blast
qed

section \<open>Payload Transformer\<close>

text \<open>
  \<open>array.array('h', bs)\<close> builds 16-bit items from consecutive byte pairs in the
  byte order of the machine, and raises \<open>ValueError\<close> when the number of bytes is
  not a multiple of the item size 2. The byte order is a parameter of the model.
  \<open>byteswap\<close> exchanges the two bytes of every item and \<open>tobytes\<close> writes the items
  back in the machine's byte order.
\<close>

datatype byteorder = Little | Big

definition item_of_bytes :: "byteorder \<Rightarrow> byte \<Rightarrow> byte \<Rightarrow> 16 word" where
  "item_of_bytes bo b0 b1 =
     (case bo of Little \<Rightarrow> ucast b0 OR push_bit 8 (ucast b1)
               | Big \<Rightarrow> push_bit 8 (ucast b0) OR ucast b1)"

definition bytes_of_item :: "byteorder \<Rightarrow> 16 word \<Rightarrow> byte list" where
  "bytes_of_item bo x =
     (case bo of Little \<Rightarrow> [ucast x, ucast (drop_bit 8 x)]
               | Big \<Rightarrow> [ucast (drop_bit 8 x), ucast x])"

fun items_of_bytes :: "byteorder \<Rightarrow> byte list \<Rightarrow> 16 word list" where
  "items_of_bytes bo (b0 # b1 # bs) = item_of_bytes bo b0 b1 # items_of_bytes bo bs"
| "items_of_bytes bo bs = []"

definition array_h :: "byteorder \<Rightarrow> byte list \<Rightarrow> error + 16 word list" where
  "array_h bo bs = (if length bs mod 2 \<noteq> 0 then Inl ValueError else Inr (items_of_bytes bo bs))"

definition byteswap16 :: "16 word \<Rightarrow> 16 word" where
  "byteswap16 x = push_bit 8 x OR drop_bit 8 x"

definition array_byteswap :: "16 word list \<Rightarrow> 16 word list" where
  "array_byteswap a = map byteswap16 a"

definition array_tobytes :: "byteorder \<Rightarrow> 16 word list \<Rightarrow> byte list" where
  "array_tobytes bo a = concat (map (bytes_of_item bo) a)"

text \<open>
  \<^verbatim>\<open>
  def process_pcm_data(pcm_data, channels):
      if len(pcm_data) % 2 != 0:
          pcm_data = pcm_data[:-1]
      if channels == 1:
          pcm_data = pcm_data[:len(pcm_data)//2]
      pcm_array = array.array('h', pcm_data)
      pcm_array.byteswap()
      return pcm_array.tobytes()
  \<close>
\<close>

definition process_pcm_data :: "byteorder \<Rightarrow> byte list \<Rightarrow> int \<Rightarrow> error + byte list" where
  "process_pcm_data bo pcm_data channels =
     (let pcm1 = (if length pcm_data mod 2 \<noteq> 0 then py_slice pcm_data 0 (- 1) else pcm_data);
          pcm2 = (if channels = 1 then py_slice pcm1 0 (int (length pcm1) div 2) else pcm1)
      in case array_h bo pcm2 of
           Inl e \<Rightarrow> Inl e
         | Inr pcm_array \<Rightarrow> Inr (array_tobytes bo (array_byteswap pcm_array)))"

text \<open>
  The byte swap of each 16-bit word, written on the bytes: the two bytes of every
  consecutive pair change places.
\<close>

fun swap_pairs :: "'a list \<Rightarrow> 'a list" where
  "swap_pairs (a # b # xs) = b # a # swap_pairs xs"
| "swap_pairs xs = xs"

definition even_trunc :: "'a list \<Rightarrow> 'a list" where
  "even_trunc xs = take (2 * (length xs div 2)) xs"

section \<open>Payload Transformer: results\<close>

lemma byte_bit_high: "bit (b :: byte) n \<Longrightarrow> n < 8"
  using bit_imp_le_length [of b n] by simp

lemma swap_little_lo:
  "(ucast (byteswap16 (ucast (a :: byte) OR push_bit 8 (ucast (b :: byte)))) :: byte) = b"
  unfolding byteswap16_def
  by (rule bit_word_eqI) (auto simp: bit_simps dest: byte_bit_high)

lemma swap_little_hi:
  "(ucast (drop_bit 8 (byteswap16 (ucast (a :: byte) OR push_bit 8 (ucast (b :: byte))))) :: byte) = a"
  unfolding byteswap16_def
  by (rule bit_word_eqI) (auto simp: bit_simps dest: byte_bit_high)

lemma swap_big_lo:
  "(ucast (byteswap16 (push_bit 8 (ucast (a :: byte)) OR ucast (b :: byte))) :: byte) = a"
  unfolding byteswap16_def
  by (rule bit_word_eqI) (auto simp: bit_simps dest: byte_bit_high)

lemma swap_big_hi:
  "(ucast (drop_bit 8 (byteswap16 (push_bit 8 (ucast (a :: byte)) OR ucast (b :: byte)))) :: byte) = b"
  unfolding byteswap16_def
  by (rule bit_word_eqI) (auto simp: bit_simps dest: byte_bit_high)

lemma bytes_of_swapped_item: "bytes_of_item bo (byteswap16 (item_of_bytes bo a b)) = [b, a]"
  by (cases bo)
     (simp_all add: bytes_of_item_def item_of_bytes_def
        swap_little_lo swap_little_hi swap_big_lo swap_big_hi)

lemma array_swap_bytes:
  "even (length bs) \<Longrightarrow>
   array_tobytes bo (array_byteswap (items_of_bytes bo bs)) = swap_pairs bs"
proof (induction bs rule: swap_pairs.induct)
  case (1 a b xs)
  then show ?case
    by (simp add: array_tobytes_def array_byteswap_def bytes_of_swapped_item)
qed (simp_all add: array_tobytes_def array_byteswap_def)

lemma swap_pairs_length: "length (swap_pairs xs) = length xs"
  by (induction xs rule: swap_pairs.induct) simp_all

lemma swap_pairs_twice: "swap_pairs (swap_pairs xs) = xs"
  by (induction xs rule: swap_pairs.induct) simp_all

lemma swap_pairs_append:
  "even (length xs) \<Longrightarrow> swap_pairs (xs @ ys) = swap_pairs xs @ swap_pairs ys"
  by (induction xs rule: swap_pairs.induct) simp_all

lemma py_slice_prefix: "0 \<le> k \<Longrightarrow> py_slice xs 0 k = take (nat k) xs"
  by (simp add: py_slice_take_drop slice_bound_def min_def)

lemma slice_bound_minus_one: "slice_bound n (- 1) = n - 1"
  by (cases n) (simp_all add: slice_bound_def)

lemma py_slice_drop_last: "py_slice xs 0 (- 1) = butlast xs"
  by (simp add: py_slice_take_drop slice_bound_minus_one butlast_conv_take)
     (simp add: slice_bound_def)

lemma length_even_trunc: "length (even_trunc xs) = 2 * (length xs div 2)"
  by (simp add: even_trunc_def)

lemma pcm_step1:
  "(if length pcm mod 2 \<noteq> 0 then py_slice pcm 0 (- 1) else pcm) = even_trunc pcm"
proof (cases "length pcm mod 2 = 0")
  case True
  then have "2 * (length pcm div 2) = length pcm" by presburger
  with True show ?thesis by (simp add: even_trunc_def)
next
  case False
  then have "2 * (length pcm div 2) = length pcm - 1" by presburger
  with False show ?thesis by (simp add: even_trunc_def py_slice_drop_last butlast_conv_take)
qed

lemma pcm_step2:
  "py_slice (even_trunc pcm) 0 (int (length (even_trunc pcm)) div 2) = take (length pcm div 2) pcm"
proof -
  have "int (length (even_trunc pcm)) div 2 = int (length pcm div 2)"
    by (simp add: length_even_trunc)
  then have "py_slice (even_trunc pcm) 0 (int (length (even_trunc pcm)) div 2)
             = take (length pcm div 2) (even_trunc pcm)"
    by (simp add: py_slice_prefix)
  also have "\<dots> = take (length pcm div 2) pcm"
    by (simp add: even_trunc_def min_def)
  finally show ?thesis .
qed

lemma process_pcm_data_stereo:
  "channels \<noteq> 1 \<Longrightarrow> process_pcm_data bo pcm channels = Inr (swap_pairs (even_trunc pcm))"
  unfolding process_pcm_data_def pcm_step1 Let_def
  by (simp add: array_h_def length_even_trunc array_swap_bytes)

lemma length_first_half: "length (take (length pcm div 2) pcm) = length pcm div 2"
  by simp

lemma process_pcm_data_mono:
  "process_pcm_data bo pcm 1 =
     (if odd (length pcm div 2) then Inl ValueError
      else Inr (swap_pairs (take (length pcm div 2) pcm)))"
proof (cases "odd (length pcm div 2)")
  case True
  then have "length (take (length pcm div 2) pcm) mod 2 \<noteq> 0"
    by (simp only: length_first_half) presburger
  with True show ?thesis
    unfolding process_pcm_data_def pcm_step1 Let_def pcm_step2
    by (simp add: array_h_def del: length_take)
next
  case False
  then have e: "even (length (take (length pcm div 2) pcm))"
    by (simp add: length_first_half del: length_take)
  then have "length (take (length pcm div 2) pcm) mod 2 = 0"
    by presburger
  with False e show ?thesis
    unfolding process_pcm_data_def pcm_step1 Let_def pcm_step2
    by (simp add: array_h_def array_swap_bytes del: length_take)
qed

lemma swap_pairs_nth:
  "even (length xs) \<Longrightarrow> 2 * i + 1 < length xs \<Longrightarrow>
   swap_pairs xs ! (2 * i) = xs ! (2 * i + 1) \<and> swap_pairs xs ! (2 * i + 1) = xs ! (2 * i)"
proof (induction xs arbitrary: i rule: swap_pairs.induct)
  case (1 a b xs)
  show ?case
  proof (cases i)
    case 0
    then show ?thesis by simp
  next
    case (Suc j)
    with 1 show ?thesis by simp
  qed
qed simp_all

lemma process_pcm_data_even_length:
  "process_pcm_data bo pcm channels = Inr out \<Longrightarrow> even (length out)"
proof (cases "channels = 1")
  case True
  assume "process_pcm_data bo pcm channels = Inr out"
  with True have "even (length pcm div 2)" and "out = swap_pairs (take (length pcm div 2) pcm)"
    by (auto simp: process_pcm_data_mono split: if_splits)
  then show ?thesis by (simp add: swap_pairs_length)
next
  case False
  assume "process_pcm_data bo pcm channels = Inr out"
  with False have "out = swap_pairs (even_trunc pcm)"
    by (simp add: process_pcm_data_stereo)
  then show ?thesis by (simp add: swap_pairs_length length_even_trunc)
qed

lemma process_pcm_data_error:
  "process_pcm_data bo pcm channels = Inl e \<longleftrightarrow>
   e = ValueError \<and> channels = 1 \<and> odd (length pcm div 2)"
  by (cases "channels = 1") (auto simp: process_pcm_data_mono process_pcm_data_stereo)

text \<open>
  C1: the claim that \<open>process_pcm_data\<close> returns normally for every payload and
  every channel count in {1, 2} fails on the code. For the two-byte payload
  \<open>12 34\<close> with \<open>channels = 1\<close> the even-length step keeps both bytes, the mono
  step keeps the first \<open>2 // 2 = 1\<close> byte, and \<open>array.array('h', ...)\<close> raises
  \<open>ValueError\<close> on the single byte. In general the function raises exactly when
  \<open>channels = 1\<close> and \<open>len(pcm_data) // 2\<close> is odd, on either byte order.
\<close>

theorem process_pcm_data_mono_raises:
  "process_pcm_data bo [0x12, 0x34] 1 = Inl ValueError
   \<and> process_pcm_data bo [0x12, 0x34, 0x56, 0x78, 0x9A, 0xBC, 0xDE] 1 = Inl ValueError
   \<and> (process_pcm_data bo pcm channels = Inl ValueError)
       = (channels = 1 \<and> odd (length pcm div 2))"
  by (simp add: process_pcm_data_error)

text \<open>
  C7: with \<open>channels = 2\<close> the Payload Transformer returns normally, and swapping
  the two bytes of every 16-bit word of its output gives back the input payload
  truncated to even length; the output has the length of the truncated input (the same
  number of samples, in the same order), and running the transformer on its own
  stereo output returns the truncated input.
\<close>

theorem process_pcm_data_stereo_roundtrip:
  "\<exists>out. process_pcm_data bo pcm 2 = Inr out
         \<and> out = swap_pairs (even_trunc pcm)
         \<and> swap_pairs out = even_trunc pcm
         \<and> length out = 2 * (length pcm div 2)
         \<and> process_pcm_data bo out 2 = Inr (even_trunc pcm)"
proof -
  let ?out = "swap_pairs (even_trunc pcm)"
  have l: "length ?out = 2 * (length pcm div 2)"
    by (simp add: swap_pairs_length length_even_trunc)
  then have "even_trunc ?out = ?out"
    by (simp add: even_trunc_def)
  then have "process_pcm_data bo ?out 2 = Inr (even_trunc pcm)"
    by (simp add: process_pcm_data_stereo swap_pairs_twice)
  with l show ?thesis
    by (simp add: process_pcm_data_stereo swap_pairs_twice)
qed

text \<open>
  C8: for a payload of \<open>2N\<close> 16-bit samples (\<open>4N\<close> bytes), given as its first
  half followed by its second half, with \<open>channels = 1\<close> the Payload Transformer
  returns exactly \<open>N\<close> samples (\<open>2N\<close> bytes): the first half with the two bytes of
  every sample swapped. The second half does not occur in the result, so replacing it by
  any other \<open>2N\<close> bytes leaves the output unchanged.
\<close>

theorem process_pcm_data_mono_first_half:
  assumes "length first_half = 2 * N" and "length second_half = 2 * N"
    and "length other_half = 2 * N"
  shows "process_pcm_data bo (first_half @ second_half) 1 = Inr (swap_pairs first_half)
         \<and> length (swap_pairs first_half) = 2 * N
         \<and> process_pcm_data bo (first_half @ other_half) 1
             = process_pcm_data bo (first_half @ second_half) 1"
proof -
  have half: "length (first_half @ h) div 2 = 2 * N" if "length h = 2 * N" for h :: "byte list"
    using assms(1) that by simp
  have res: "process_pcm_data bo (first_half @ h) 1 = Inr (swap_pairs first_half)"
    if "length h = 2 * N" for h
    using assms(1) by (simp add: process_pcm_data_mono half [OF that] del: length_append)
  show ?thesis
    using res [OF assms(2)] res [OF assms(3)] assms(1) by (simp add: swap_pairs_length)
qed

theorem process_pcm_data_mono_first_half_witness:
  "length [0x12, 0x34 :: byte] = 2 * 1 \<and> length [0xAB, 0xCD :: byte] = 2 * 1
   \<and> process_pcm_data Little ([0x12, 0x34] @ [0xAB, 0xCD]) 1 = Inr [0x34, 0x12]
   \<and> process_pcm_data Little ([0x12, 0x34] @ [0x00, 0x00]) 1
       = process_pcm_data Little ([0x12, 0x34] @ [0xAB, 0xCD]) 1"
  using process_pcm_data_mono_first_half
          [of "[0x12, 0x34]" 1 "[0xAB, 0xCD]" "[0x00, 0x00]" Little]
  by simp

section \<open>Entry Table Walker\<close>

text \<open>
  \<^verbatim>\<open>
  def parse_audio_entries(data, dwav_offset):
      entries = []
      offset = dwav_offset + 32
      while offset + 32 <= len(data):
          idx = int.from_bytes(data[offset:offset+4], "big")
          if idx == 0 or idx > 0xFFFF:
              break
          audio_ptr = int.from_bytes(data[offset+8:offset+12], "big")
          abs_offset = dwav_offset + audio_ptr
          if abs_offset >= len(data):
              break
          entries.append((idx, abs_offset))
          offset += 32
      return entries
  \<close>
  The loop is the recursive function \<open>scan_entries\<close> on the loop variables
  \<open>offset\<close> and \<open>entries\<close>. It also keeps a log \<open>reads\<close> of the slices
  \<open>data[lo:hi]\<close> it takes, as pairs \<open>(lo, hi)\<close>, so that the bytes the walker reads
  can be stated; the log has no influence on the entries.
\<close>

function scan_entries ::
  "byte list \<Rightarrow> int \<Rightarrow> int \<Rightarrow> (int \<times> int) list \<Rightarrow> (int \<times> int) list
   \<Rightarrow> (int \<times> int) list \<times> (int \<times> int) list" where
  "scan_entries data dwav_offset offset entries reads =
     (if offset + 32 \<le> int (length data) then
        let idx = from_bytes_big (py_slice data offset (offset + 4));
            reads1 = reads @ [(offset, offset + 4)]
        in if idx = 0 \<or> idx > 0xFFFF then (entries, reads1)
           else
             let audio_ptr = from_bytes_big (py_slice data (offset + 8) (offset + 12));
                 reads2 = reads1 @ [(offset + 8, offset + 12)];
                 abs_offset = dwav_offset + audio_ptr
             in if abs_offset \<ge> int (length data) then (entries, reads2)
                else scan_entries data dwav_offset (offset + 32)
                       (entries @ [(idx, abs_offset)]) reads2
      else (entries, reads))"
  by pat_completeness auto
termination
  by (relation "measure (\<lambda>(data, dwav_offset, offset, entries, reads).
        nat (int (length data) - offset))") auto

declare scan_entries.simps [simp del]

definition parse_audio_entries :: "byte list \<Rightarrow> int \<Rightarrow> (int \<times> int) list" where
  "parse_audio_entries data dwav_offset =
     fst (scan_entries data dwav_offset (dwav_offset + 32) [] [])"

definition parse_audio_entries_reads :: "byte list \<Rightarrow> int \<Rightarrow> (int \<times> int) list" where
  "parse_audio_entries_reads data dwav_offset =
     snd (scan_entries data dwav_offset (dwav_offset + 32) [] [])"

text \<open>
  The table as the format describes it: record \<open>k\<close> starts at
  \<open>section_offset + 32 + 32 * k\<close>, its index is the big-endian integer in its
  bytes [0, 4) and its relative pointer the one in its bytes [8, 12). The table ends at
  record \<open>k\<close> when the record would extend past the container, its index is 0 or
  greater than 0xFFFF, or its absolute offset is not below the container length.
\<close>

definition rec_offset :: "int \<Rightarrow> nat \<Rightarrow> int" where
  "rec_offset dwav_offset k = dwav_offset + 32 + 32 * int k"

definition rec_index :: "byte list \<Rightarrow> int \<Rightarrow> nat \<Rightarrow> int" where
  "rec_index data dwav_offset k =
     from_bytes_big (py_slice data (rec_offset dwav_offset k) (rec_offset dwav_offset k + 4))"

definition rec_pointer :: "byte list \<Rightarrow> int \<Rightarrow> nat \<Rightarrow> int" where
  "rec_pointer data dwav_offset k =
     from_bytes_big (py_slice data (rec_offset dwav_offset k + 8) (rec_offset dwav_offset k + 12))"

definition entry_of :: "byte list \<Rightarrow> int \<Rightarrow> nat \<Rightarrow> int \<times> int" where
  "entry_of data dwav_offset k =
     (rec_index data dwav_offset k, dwav_offset + rec_pointer data dwav_offset k)"

definition table_end :: "byte list \<Rightarrow> int \<Rightarrow> nat \<Rightarrow> bool" where
  "table_end data dwav_offset k \<longleftrightarrow>
     rec_offset dwav_offset k + 32 > int (length data)
     \<or> rec_index data dwav_offset k = 0
     \<or> rec_index data dwav_offset k > 0xFFFF
     \<or> dwav_offset + rec_pointer data dwav_offset k \<ge> int (length data)"

section \<open>Entry Table Walker: results\<close>

lemma rec_offset_0: "rec_offset dwav 0 = dwav + 32"
  by (simp add: rec_offset_def)

lemma rec_offset_Suc: "rec_offset dwav (Suc k) = rec_offset dwav k + 32"
  by (simp add: rec_offset_def)

lemma scan_entries_unfold:
  "scan_entries data dwav (rec_offset dwav k) entries reads =
     (if table_end data dwav k then
        (entries,
         if rec_offset dwav k + 32 > int (length data) then reads
         else if rec_index data dwav k = 0 \<or> rec_index data dwav k > 0xFFFF
           then reads @ [(rec_offset dwav k, rec_offset dwav k + 4)]
         else reads @ [(rec_offset dwav k, rec_offset dwav k + 4),
                       (rec_offset dwav k + 8, rec_offset dwav k + 12)])
      else scan_entries data dwav (rec_offset dwav (Suc k))
             (entries @ [entry_of data dwav k])
             (reads @ [(rec_offset dwav k, rec_offset dwav k + 4),
                       (rec_offset dwav k + 8, rec_offset dwav k + 12)]))"
  by (subst scan_entries.simps)
     (simp add: Let_def table_end_def rec_index_def rec_pointer_def entry_of_def rec_offset_Suc)

lemma scan_entries_prefix:
  "\<exists>K\<ge>k. table_end data dwav K
        \<and> (\<forall>j. k \<le> j \<and> j < K \<longrightarrow> \<not> table_end data dwav j)
        \<and> fst (scan_entries data dwav (rec_offset dwav k) entries reads)
            = entries @ map (entry_of data dwav) [k ..< K]"
proof (induction "nat (int (length data) - rec_offset dwav k)"
       arbitrary: k entries reads rule: less_induct)
  case less
  show ?case
  proof (cases "table_end data dwav k")
    case True
    then have "fst (scan_entries data dwav (rec_offset dwav k) entries reads) = entries"
      by (subst scan_entries_unfold) simp
    with True show ?thesis by (intro exI [of _ k]) auto
  next
    case False
    then have "rec_offset dwav k + 32 \<le> int (length data)"
      by (simp add: table_end_def)
    then have "nat (int (length data) - rec_offset dwav (Suc k))
               < nat (int (length data) - rec_offset dwav k)"
      by (simp add: rec_offset_Suc)
    from less [OF this, of "entries @ [entry_of data dwav k]"
                 "reads @ [(rec_offset dwav k, rec_offset dwav k + 4),
                           (rec_offset dwav k + 8, rec_offset dwav k + 12)]"]
    obtain K where K: "Suc k \<le> K" "table_end data dwav K"
      "\<forall>j. Suc k \<le> j \<and> j < K \<longrightarrow> \<not> table_end data dwav j"
      "fst (scan_entries data dwav (rec_offset dwav (Suc k)) (entries @ [entry_of data dwav k])
             (reads @ [(rec_offset dwav k, rec_offset dwav k + 4),
                       (rec_offset dwav k + 8, rec_offset dwav k + 12)]))
       = (entries @ [entry_of data dwav k]) @ map (entry_of data dwav) [Suc k ..< K]"
      by blast
    have up: "[k ..< K] = k # [Suc k ..< K]"
      using K(1) by (simp add: upt_conv_Cons)
    have a: "fst (scan_entries data dwav (rec_offset dwav k) entries reads)
             = entries @ map (entry_of data dwav) [k ..< K]"
      using False K(4) by (subst scan_entries_unfold) (simp add: up)
    have b: "\<forall>j. k \<le> j \<and> j < K \<longrightarrow> \<not> table_end data dwav j"
    proof (intro allI impI)
      fix j assume j: "k \<le> j \<and> j < K"
      show "\<not> table_end data dwav j"
      proof (cases "j = k")
        case True
        with False show ?thesis by simp
      next
        case neq: False
        with j have "Suc k \<le> j \<and> j < K" by simp
        with K(3) show ?thesis by blast
      qed
    qed
    from K(1) K(2) a b show ?thesis
      by (intro exI [of _ K]) auto
  qed
qed

lemma entry_of_valid:
  "\<not> table_end data dwav k \<Longrightarrow>
   1 \<le> fst (entry_of data dwav k) \<and> fst (entry_of data dwav k) \<le> 0xFFFF
   \<and> snd (entry_of data dwav k) < int (length data)"
  using from_bytes_big_nonneg
          [of "py_slice data (rec_offset dwav k) (rec_offset dwav k + 4)"]
  by (simp add: table_end_def entry_of_def rec_index_def)

lemma rec_index_be32:
  assumes "0 \<le> dwav" and "rec_offset dwav k + 32 \<le> int (length data)"
  shows "rec_index data dwav k = be32_at data (nat (rec_offset dwav k))"
    and "rec_pointer data dwav k = be32_at data (nat (rec_offset dwav k) + 8)"
proof -
  have o: "0 \<le> rec_offset dwav k" using assms(1) by (simp add: rec_offset_def)
  show "rec_index data dwav k = be32_at data (nat (rec_offset dwav k))"
    using be32_slice [of "nat (rec_offset dwav k)" data] o assms(2)
    by (simp add: rec_index_def)
  show "rec_pointer data dwav k = be32_at data (nat (rec_offset dwav k) + 8)"
    using be32_slice [of "nat (rec_offset dwav k) + 8" data] o assms(2)
    by (simp add: rec_pointer_def add.assoc)
qed

lemma scan_entries_reads_good:
  fixes data :: "byte list" and dwav :: int
  defines "good \<equiv> \<lambda>r. (\<exists>j. rec_offset dwav j + 32 \<le> int (length data)
                            \<and> (fst r = rec_offset dwav j \<or> fst r = rec_offset dwav j + 8))
                       \<and> snd r = fst r + 4"
  assumes "\<forall>r\<in>set reads. good r"
  shows "\<forall>r\<in>set (snd (scan_entries data dwav (rec_offset dwav k) entries reads)). good r"
  using assms(2)
proof (induction "nat (int (length data) - rec_offset dwav k)"
       arbitrary: k entries reads rule: less_induct)
  case less
  show ?case
  proof (cases "table_end data dwav k")
    case True
    show ?thesis
    proof (cases "rec_offset dwav k + 32 > int (length data)")
      case True
      then show ?thesis
        using less.prems by (subst scan_entries_unfold) (simp add: table_end_def)
    next
      case False
      then have g: "good (rec_offset dwav k, rec_offset dwav k + 4)"
        "good (rec_offset dwav k + 8, rec_offset dwav k + 12)"
        unfolding good_def by (intro conjI exI [of _ k]; simp)+
      with True less.prems show ?thesis
        by (subst scan_entries_unfold) auto
    qed
  next
    case False
    then have fits: "rec_offset dwav k + 32 \<le> int (length data)"
      by (simp add: table_end_def)
    then have m: "nat (int (length data) - rec_offset dwav (Suc k))
               < nat (int (length data) - rec_offset dwav k)"
      by (simp add: rec_offset_Suc)
    from fits have g: "good (rec_offset dwav k, rec_offset dwav k + 4)"
        "good (rec_offset dwav k + 8, rec_offset dwav k + 12)"
      unfolding good_def by (intro conjI exI [of _ k]; simp)+
    with less.prems
    have "\<forall>r\<in>set (reads @ [(rec_offset dwav k, rec_offset dwav k + 4),
                             (rec_offset dwav k + 8, rec_offset dwav k + 12)]). good r"
      by simp
    from less.hyps [OF m this] False show ?thesis
      by (subst scan_entries_unfold) simp
  qed
qed

lemma scan_entries_first_read:
  "reads \<noteq> [] \<Longrightarrow>
   hd (snd (scan_entries data dwav (rec_offset dwav k) entries reads)) = hd reads"
proof (induction "nat (int (length data) - rec_offset dwav k)"
       arbitrary: k entries reads rule: less_induct)
  case less
  show ?case
  proof (cases "table_end data dwav k")
    case True
    with less.prems show ?thesis by (subst scan_entries_unfold) simp
  next
    case False
    then have "rec_offset dwav k + 32 \<le> int (length data)"
      by (simp add: table_end_def)
    then have m: "nat (int (length data) - rec_offset dwav (Suc k))
               < nat (int (length data) - rec_offset dwav k)"
      by (simp add: rec_offset_Suc)
    from less.hyps [OF m, of "reads @ [(rec_offset dwav k, rec_offset dwav k + 4),
                             (rec_offset dwav k + 8, rec_offset dwav k + 12)]"]
      False less.prems
    show ?thesis by (subst scan_entries_unfold) simp
  qed
qed

lemma parse_audio_entries_first_read:
  "parse_audio_entries_reads data dwav \<noteq> [] \<Longrightarrow>
   hd (parse_audio_entries_reads data dwav) = (dwav + 32, dwav + 36)"
proof -
  assume ne: "parse_audio_entries_reads data dwav \<noteq> []"
  let ?o = "rec_offset dwav 0"
  have fits: "?o + 32 \<le> int (length data)"
  proof (rule ccontr)
    assume "\<not> ?o + 32 \<le> int (length data)"
    then have "scan_entries data dwav ?o [] [] = ([], [])"
      by (subst scan_entries_unfold) (simp add: table_end_def)
    with ne show False by (simp add: parse_audio_entries_reads_def rec_offset_0)
  qed
  show ?thesis
  proof (cases "table_end data dwav 0")
    case True
    with fits show ?thesis
      unfolding parse_audio_entries_reads_def rec_offset_0 [symmetric]
      by (subst scan_entries_unfold) (simp add: rec_offset_0)
  next
    case False
    then show ?thesis
      unfolding parse_audio_entries_reads_def rec_offset_0 [symmetric]
      by (subst scan_entries_unfold) (simp add: scan_entries_first_read rec_offset_0)
  qed
qed

lemma parse_audio_entries_alt:
  "parse_audio_entries data dwav = fst (scan_entries data dwav (rec_offset dwav 0) [] [])"
  "parse_audio_entries_reads data dwav = snd (scan_entries data dwav (rec_offset dwav 0) [] [])"
  by (simp_all add: parse_audio_entries_def parse_audio_entries_reads_def rec_offset_0)

lemma slice_positions_record:
  assumes "0 \<le> lo" and "lo + 4 \<le> int n"
  shows "slice_positions n lo (lo + 4) = [nat lo ..< nat lo + 4]"
  using assms by (simp add: slice_positions_inside nat_add_distrib)

text \<open>
  C2: every slice \<open>data[lo:hi]\<close> that \<open>parse_audio_entries\<close> takes lies in a
  32-byte record \<open>k\<close> that starts at \<open>section_offset + 32 + 32 * k\<close> and ends at or
  before the container length (the loop condition \<open>offset + 32 \<le> len(data)\<close>); it is
  the 4-byte slice at record offset 0 or 8, so \<open>hi \<le> len(data)\<close>; the first slice
  taken starts at \<open>section_offset + 32\<close>; every position the slice reads is below
  the container length; and for a nonnegative section offset the slice reads exactly the
  four positions \<open>lo, ..., lo + 3\<close>.
\<close>

theorem parse_audio_entries_reads_in_bounds:
  "(\<forall>(lo, hi) \<in> set (parse_audio_entries_reads data dwav).
      (\<exists>k. rec_offset dwav k + 32 \<le> int (length data)
           \<and> (lo = rec_offset dwav k \<or> lo = rec_offset dwav k + 8))
      \<and> hi = lo + 4 \<and> hi \<le> int (length data)
      \<and> (\<forall>p \<in> set (slice_positions (length data) lo hi). p < length data)
      \<and> (0 \<le> dwav \<longrightarrow> slice_positions (length data) lo hi = [nat lo ..< nat lo + 4]))
   \<and> (parse_audio_entries_reads data dwav \<noteq> [] \<longrightarrow>
        hd (parse_audio_entries_reads data dwav) = (dwav + 32, dwav + 36))"
proof (intro conjI ballI impI)
  fix r assume r: "r \<in> set (parse_audio_entries_reads data dwav)"
  obtain lo hi where lh: "r = (lo, hi)" by (cases r)
  have "\<forall>r\<in>set (snd (scan_entries data dwav (rec_offset dwav 0) [] [])).
          (\<exists>j. rec_offset dwav j + 32 \<le> int (length data)
               \<and> (fst r = rec_offset dwav j \<or> fst r = rec_offset dwav j + 8))
          \<and> snd r = fst r + 4"
    by (rule scan_entries_reads_good) simp
  with r lh obtain k where k: "rec_offset dwav k + 32 \<le> int (length data)"
      "lo = rec_offset dwav k \<or> lo = rec_offset dwav k + 8" and hi: "hi = lo + 4"
    by (auto simp: parse_audio_entries_alt)
  have le: "hi \<le> int (length data)" using k hi by auto
  have pos: "\<forall>p \<in> set (slice_positions (length data) lo hi). p < length data"
    by (simp add: slice_positions_lt)
  have ex: "0 \<le> dwav \<longrightarrow> slice_positions (length data) lo hi = [nat lo ..< nat lo + 4]"
  proof
    assume "0 \<le> dwav"
    with k(2) have "0 \<le> lo" by (auto simp: rec_offset_def)
    with le hi show "slice_positions (length data) lo hi = [nat lo ..< nat lo + 4]"
      by (simp add: slice_positions_record)
  qed
  from k hi le pos ex
  show "case r of (lo, hi) \<Rightarrow>
          (\<exists>k. rec_offset dwav k + 32 \<le> int (length data)
               \<and> (lo = rec_offset dwav k \<or> lo = rec_offset dwav k + 8))
          \<and> hi = lo + 4 \<and> hi \<le> int (length data)
          \<and> (\<forall>p \<in> set (slice_positions (length data) lo hi). p < length data)
          \<and> (0 \<le> dwav \<longrightarrow> slice_positions (length data) lo hi = [nat lo ..< nat lo + 4])"
    unfolding lh by blast
next
  assume "parse_audio_entries_reads data dwav \<noteq> []"
  then show "hd (parse_audio_entries_reads data dwav) = (dwav + 32, dwav + 36)"
    by (rule parse_audio_entries_first_read)
qed

text \<open>
  C3: the output of \<open>parse_audio_entries\<close> is exactly the sequence of pairs
  \<open>(index, section_offset + relative_pointer)\<close> of the records \<open>0, ..., K - 1\<close>,
  where \<open>K\<close> is the first record at which the table ends (index 0 or above 0xFFFF,
  absolute offset not below the container length, or record extending past the
  container); no record from \<open>K\<close> on is included. Hence every emitted entry has
  \<open>1 \<le> index \<le> 0xFFFF\<close> and an absolute offset below the container length. For a
  nonnegative section offset the two fields are the big-endian 32-bit integers at
  bytes [0, 4) and [8, 12) of the record.
\<close>

theorem parse_audio_entries_spec:
  "\<exists>K. table_end data dwav K
       \<and> (\<forall>k<K. \<not> table_end data dwav k)
       \<and> parse_audio_entries data dwav = map (entry_of data dwav) [0 ..< K]
       \<and> length (parse_audio_entries data dwav) = K
       \<and> (\<forall>(idx, abs_offset) \<in> set (parse_audio_entries data dwav).
            1 \<le> idx \<and> idx \<le> 0xFFFF \<and> abs_offset < int (length data))
       \<and> (0 \<le> dwav \<longrightarrow> (\<forall>k<K. entry_of data dwav k =
              (be32_at data (nat (rec_offset dwav k)),
               dwav + be32_at data (nat (rec_offset dwav k) + 8))))"
proof -
  from scan_entries_prefix [of 0 data dwav "[]" "[]"]
  obtain K where K: "table_end data dwav K" "\<forall>j. 0 \<le> j \<and> j < K \<longrightarrow> \<not> table_end data dwav j"
    "parse_audio_entries data dwav = map (entry_of data dwav) [0 ..< K]"
    by (auto simp: parse_audio_entries_alt)
  have valid: "\<forall>k<K. \<not> table_end data dwav k" using K(2) by simp
  have len: "length (parse_audio_entries data dwav) = K" by (simp add: K(3))
  have rng: "\<forall>(idx, abs_offset) \<in> set (parse_audio_entries data dwav).
               1 \<le> idx \<and> idx \<le> 0xFFFF \<and> abs_offset < int (length data)"
  proof (intro ballI)
    fix e assume "e \<in> set (parse_audio_entries data dwav)"
    then obtain k where "k < K" "e = entry_of data dwav k"
      by (auto simp: K(3))
    with valid entry_of_valid [of data dwav k]
    show "case e of (idx, abs_offset) \<Rightarrow>
            1 \<le> idx \<and> idx \<le> 0xFFFF \<and> abs_offset < int (length data)"
      by (simp add: case_prod_beta)
  qed
  have be: "0 \<le> dwav \<longrightarrow> (\<forall>k<K. entry_of data dwav k =
              (be32_at data (nat (rec_offset dwav k)),
               dwav + be32_at data (nat (rec_offset dwav k) + 8)))"
  proof (intro impI allI)
    fix k assume "0 \<le> dwav" "k < K"
    with valid have "rec_offset dwav k + 32 \<le> int (length data)"
      by (auto simp: table_end_def)
    with \<open>0 \<le> dwav\<close> show "entry_of data dwav k =
              (be32_at data (nat (rec_offset dwav k)),
               dwav + be32_at data (nat (rec_offset dwav k) + 8))"
      by (simp add: entry_of_def rec_index_be32)
  qed
  from K(1) valid K(3) len rng be show ?thesis by blast
qed

text \<open>
  A 96-byte table at section offset 0: the 32-byte section header, one record with
  index 1 and relative pointer 70, and an all-zero record that ends the table.
\<close>

definition example_table :: "byte list" where
  "example_table =
     replicate 32 0 @ [0, 0, 0, 1, 0, 0, 0, 0, 0, 0, 0, 70] @ replicate 20 0 @ replicate 32 0"

lemma example_table_length: "length example_table = 96"
  by (simp add: example_table_def)

lemma example_table_records:
  "rec_index example_table 0 0 = 1" "rec_pointer example_table 0 0 = 70"
  "rec_index example_table 0 (Suc 0) = 0"
proof -
  have f0: "rec_offset 0 0 + 32 \<le> int (length example_table)"
    and f1: "rec_offset 0 (Suc 0) + 32 \<le> int (length example_table)"
    by (simp_all add: rec_offset_def example_table_length)
  show "rec_index example_table 0 0 = 1"
    by (simp add: rec_index_be32 (1) [OF _ f0])
       (simp add: rec_offset_def be32_at_def example_table_def nth_append)
  show "rec_pointer example_table 0 0 = 70"
    by (simp add: rec_index_be32 (2) [OF _ f0])
       (simp add: rec_offset_def be32_at_def example_table_def nth_append)
  show "rec_index example_table 0 (Suc 0) = 0"
    by (simp add: rec_index_be32 (1) [OF _ f1])
       (simp add: rec_offset_def be32_at_def example_table_def nth_append)
qed

lemma example_table_end:
  "\<not> table_end example_table 0 0" "table_end example_table 0 (Suc 0)"
  by (simp_all add: table_end_def example_table_records example_table_length)
     (simp_all add: rec_offset_def)

lemma example_table_reads:
  "parse_audio_entries_reads example_table 0 = [(32, 36), (40, 44), (64, 68)]"
proof -
  have "parse_audio_entries_reads example_table 0
        = [(rec_offset 0 0, rec_offset 0 0 + 4), (rec_offset 0 0 + 8, rec_offset 0 0 + 12),
           (rec_offset 0 (Suc 0), rec_offset 0 (Suc 0) + 4)]"
    unfolding parse_audio_entries_alt
    by (simp add: scan_entries_unfold example_table_end example_table_records)
       (simp add: rec_offset_def example_table_length)
  then show ?thesis by (simp add: rec_offset_def)
qed

theorem parse_audio_entries_reads_in_bounds_witness:
  "parse_audio_entries_reads example_table 0 \<noteq> []
   \<and> hd (parse_audio_entries_reads example_table 0) = (32, 36)
   \<and> (40, 44) \<in> set (parse_audio_entries_reads example_table 0)
   \<and> 44 \<le> int (length example_table)
   \<and> slice_positions (length example_table) 40 44 = [40, 41, 42, 43]"
proof -
  have m: "(40, 44) \<in> set (parse_audio_entries_reads example_table 0)"
    and ne: "parse_audio_entries_reads example_table 0 \<noteq> []"
    by (simp_all add: example_table_reads)
  from parse_audio_entries_reads_in_bounds [of example_table 0] m
  have "44 \<le> int (length example_table)
        \<and> slice_positions (length example_table) 40 44 = [nat 40 ..< nat 40 + 4]"
    by fastforce
  moreover from parse_audio_entries_reads_in_bounds [of example_table 0] ne
  have "hd (parse_audio_entries_reads example_table 0) = (32, 36)" by simp
  ultimately show ?thesis using m ne by (simp add: upt_rec)
qed

theorem parse_audio_entries_spec_witness:
  "parse_audio_entries example_table 0 = [(1, 70)]
   \<and> table_end example_table 0 1
   \<and> \<not> table_end example_table 0 0"
proof -
  from parse_audio_entries_spec [of example_table 0]
  obtain K where K: "table_end example_table 0 K" "\<forall>k<K. \<not> table_end example_table 0 k"
    "parse_audio_entries example_table 0 = map (entry_of example_table 0) [0 ..< K]"
    by blast
  have "K \<noteq> 0" using K(1) example_table_end(1) by (cases K) auto
  moreover have "\<not> Suc 0 < K" using K(2) example_table_end(2) by blast
  ultimately have "K = Suc 0" by simp
  with K(3) have "parse_audio_entries example_table 0 = [entry_of example_table 0 0]"
    by simp
  then show ?thesis
    using example_table_end by (simp add: entry_of_def example_table_records)
qed

section \<open>Sample names and file names\<close>

text \<open>
  \<open>str.isspace\<close> and \<open>str.isalnum\<close> on the code points below 256. White space:
  TAB to CR, the separators 0x1C to 0x1F, the space, NEL (0x85) and the no-break space
  (0xA0). Alphanumeric: the ASCII digits and letters, and in the upper half the letters,
  the superscript digits and the fractions of Latin-1.
\<close>

definition py_isspace :: "char \<Rightarrow> bool" where
  "py_isspace c =
     (let n = (of_char c :: nat)
      in (9 \<le> n \<and> n \<le> 13) \<or> (28 \<le> n \<and> n \<le> 32) \<or> n = 0x85 \<or> n = 0xA0)"

definition py_isalnum :: "char \<Rightarrow> bool" where
  "py_isalnum c =
     (let n = (of_char c :: nat)
      in (48 \<le> n \<and> n \<le> 57) \<or> (65 \<le> n \<and> n \<le> 90) \<or> (97 \<le> n \<and> n \<le> 122)
         \<or> n = 0xAA \<or> n = 0xB2 \<or> n = 0xB3 \<or> n = 0xB5 \<or> n = 0xB9 \<or> n = 0xBA
         \<or> (0xBC \<le> n \<and> n \<le> 0xBE) \<or> (0xC0 \<le> n \<and> n \<le> 0xD6)
         \<or> (0xD8 \<le> n \<and> n \<le> 0xF6) \<or> (0xF8 \<le> n \<and> n \<le> 0xFF))"

text \<open>\<open>s.strip()\<close>: white space is removed from both ends.\<close>

definition py_strip :: "string \<Rightarrow> string" where
  "py_strip s = rev (dropWhile py_isspace (rev (dropWhile py_isspace s)))"

text \<open>
  \<open>bs.decode('ascii', errors='ignore')\<close>: the bytes below 0x80 become characters,
  the others are dropped; with this error handler the call does not raise.
\<close>

definition decode_ascii_ignore :: "byte list \<Rightarrow> string" where
  "decode_ascii_ignore bs = map (\<lambda>b. char_of (unat b)) (filter (\<lambda>b. b < 0x80) bs)"

text \<open>\<open>s.replace('\x00', '')\<close>: every NUL character is removed.\<close>

definition remove_nul :: "string \<Rightarrow> string" where
  "remove_nul s = filter (\<lambda>c. c \<noteq> CHR 0x00) s"

text \<open>
  \<^verbatim>\<open>
  def extract_sample_name(header):
      try:
          name = header[:16].decode('ascii', errors='ignore').strip().replace('\x00', '')
          return name
      except Exception:
          return ""
  \<close>
  \<open>extract_sample_name_try\<close> is the body of the \<open>try\<close>.
\<close>

definition extract_sample_name_try :: "byte list \<Rightarrow> error + string" where
  "extract_sample_name_try header =
     Inr (remove_nul (py_strip (decode_ascii_ignore (py_slice header 0 16))))"

definition extract_sample_name :: "byte list \<Rightarrow> string" where
  "extract_sample_name header =
     (case extract_sample_name_try header of Inr name \<Rightarrow> name | Inl e \<Rightarrow> [])"

text \<open>
  \<open>f"{idx:03d}"\<close>: the decimal digits of \<open>idx\<close>, filled with zeros on the left
  to a width of 3; for a negative number the sign comes first and counts in the width.
\<close>

fun dec_digits :: "nat \<Rightarrow> string" where
  "dec_digits n =
     (if n < 10 then [char_of (48 + n)]
      else dec_digits (n div 10) @ [char_of (48 + n mod 10)])"

declare dec_digits.simps [simp del]

definition zero_fill :: "nat \<Rightarrow> string \<Rightarrow> string" where
  "zero_fill w s = replicate (w - length s) (CHR ''0'') @ s"

definition format_03d :: "int \<Rightarrow> string" where
  "format_03d i =
     (if i < 0 then CHR ''-'' # zero_fill 2 (dec_digits (nat (- i)))
      else zero_fill 3 (dec_digits (nat i)))"

text \<open>
  \<^verbatim>\<open>
  def sanitize_filename(name, idx):
      if not name:
          return f"sample_{idx:03d}"
      clean_name = "".join(c for c in name
                           if c.isalnum() or c in (" ", "_", "-")).strip()
      if not clean_name:
          clean_name = f"sample_{idx:03d}"
      return clean_name
  \<close>
\<close>

definition keeps :: "char \<Rightarrow> bool" where
  "keeps c = (py_isalnum c \<or> c \<in> set [CHR '' '', CHR ''_'', CHR ''-''])"

definition sanitize_filename :: "string \<Rightarrow> int \<Rightarrow> string" where
  "sanitize_filename name idx =
     (if name = [] then ''sample_'' @ format_03d idx
      else let clean_name = py_strip (filter keeps name)
           in if clean_name = [] then ''sample_'' @ format_03d idx else clean_name)"

text \<open>
  Descriptions to state the results against. \<open>ascii_whitespace\<close> lists the white
  space characters of ASCII (TAB, LF, VT, FF, CR, FS, GS, RS, US and the space);
  \<open>kept_characters\<close> lists the characters a file name keeps: the digits, the letters,
  the space, the underscore and the hyphen, and the alphanumeric characters of the upper
  half of Latin-1 by their code points. \<open>decimal_value\<close> reads a string of digits as
  a decimal number.
\<close>

definition ascii_whitespace :: string where
  "ascii_whitespace =
     [CHR 0x09, CHR 0x0A, CHR 0x0B, CHR 0x0C, CHR 0x0D, CHR 0x1C, CHR 0x1D, CHR 0x1E, CHR 0x1F,
      CHR '' '']"

definition latin1_alnum :: "nat list" where
  "latin1_alnum =
     [0xAA, 0xB2, 0xB3, 0xB5, 0xB9, 0xBA] @ [0xBC ..< 0xBF]
     @ [0xC0 ..< 0xD7] @ [0xD8 ..< 0xF7] @ [0xF8 ..< 0x100]"

definition kept_characters :: string where
  "kept_characters =
     ''0123456789'' @ ''ABCDEFGHIJKLMNOPQRSTUVWXYZ'' @ ''abcdefghijklmnopqrstuvwxyz''
     @ '' _-'' @ map char_of latin1_alnum"

definition decimal_value :: "string \<Rightarrow> nat" where
  "decimal_value s = foldl (\<lambda>a c. 10 * a + (of_char c - 48)) 0 s"

section \<open>Sample names and file names: results\<close>

lemma remove_nul_no_nul: "CHR 0x00 \<notin> set (remove_nul s)"
  by (simp add: remove_nul_def)

lemma name_field_1:
  "decode_ascii_ignore (py_slice ([0x00, 0x20, 0x4B, 0x69, 0x63, 0x6B] @ replicate 74 0) 0 16)
   = [CHR 0x00, CHR '' '', CHR ''K'', CHR ''i'', CHR ''c'', CHR ''k''] @ replicate 10 (CHR 0x00)"
  by (simp add: py_slice_prefix decode_ascii_ignore_def char_of_eq_iff)

lemma name_field_2:
  "decode_ascii_ignore (py_slice ([0x4B, 0x69, 0x63, 0x6B, 0x20] @ replicate 75 0) 0 16)
   = [CHR ''K'', CHR ''i'', CHR ''c'', CHR ''k'', CHR '' ''] @ replicate 11 (CHR 0x00)"
  by (simp add: py_slice_prefix decode_ascii_ignore_def char_of_eq_iff)

lemma isspace_values: "\<not> py_isspace (CHR 0x00)" "py_isspace (CHR '' '')" "\<not> py_isspace (CHR ''K'')"
  "\<not> py_isspace (CHR ''k'')" "\<not> py_isspace (CHR ''1'')"
  by (simp_all add: py_isspace_def)

lemma py_strip_keep:
  "s \<noteq> [] \<Longrightarrow> \<not> py_isspace (hd s) \<Longrightarrow> \<not> py_isspace (last s) \<Longrightarrow> py_strip s = s"
proof -
  assume s: "s \<noteq> []" and h: "\<not> py_isspace (hd s)" and l: "\<not> py_isspace (last s)"
  from s h have a: "dropWhile py_isspace s = s" by (cases s) simp_all
  from s l have b: "dropWhile py_isspace (rev s) = rev s"
    by (cases "rev s") (simp_all add: last_rev [symmetric] hd_rev)
  show ?thesis by (simp add: py_strip_def a b)
qed

lemma py_strip_Nil: "py_strip [] = []"
  by (simp add: py_strip_def)

lemma set_py_strip: "set (py_strip s) \<subseteq> set s"
proof
  fix x assume "x \<in> set (py_strip s)"
  then have "x \<in> set (dropWhile py_isspace (rev (dropWhile py_isspace s)))"
    by (simp add: py_strip_def)
  then have "x \<in> set (rev (dropWhile py_isspace s))" by (rule set_dropWhileD)
  then have "x \<in> set (dropWhile py_isspace s)" by simp
  then show "x \<in> set s" by (rule set_dropWhileD)
qed

lemma hd_rev_dropWhile_rev:
  assumes "dropWhile P (rev xs) \<noteq> []"
  shows "hd (rev (dropWhile P (rev xs))) = hd xs"
proof -
  define d t where "d = dropWhile P (rev xs)" and "t = takeWhile P (rev xs)"
  have "rev xs = t @ d" by (simp add: d_def t_def)
  then have "rev (rev xs) = rev (t @ d)" by (rule arg_cong)
  then have xs: "xs = rev d @ rev t" by simp
  have "rev d \<noteq> []" using assms by (simp add: d_def)
  then have "hd (rev d @ rev t) = hd (rev d)" by simp
  with xs have "hd xs = hd (rev d)" by simp
  then show ?thesis by (simp add: d_def)
qed

lemma py_strip_trimmed:
  assumes "py_strip s \<noteq> []"
  shows "\<not> py_isspace (hd (py_strip s)) \<and> \<not> py_isspace (last (py_strip s))"
proof -
  define a b where "a = dropWhile py_isspace s" and "b = dropWhile py_isspace (rev a)"
  have strip: "py_strip s = rev b" by (simp add: py_strip_def a_def b_def)
  have b: "b \<noteq> []" using assms by (simp add: strip)
  have lastb: "\<not> py_isspace (hd b)"
    using b unfolding b_def by (rule hd_dropWhile)
  have a: "a \<noteq> []"
  proof
    assume "a = []"
    then have "b = []" by (simp add: b_def)
    with b show False by contradiction
  qed
  have hda: "\<not> py_isspace (hd a)"
    using a unfolding a_def by (rule hd_dropWhile)
  have "hd (rev b) = hd a"
    using b unfolding b_def by (rule hd_rev_dropWhile_rev)
  with hda lastb b show ?thesis
    by (simp add: strip last_rev)
qed

lemma char_of_48: "char_of (48 :: nat) = CHR ''0''"
  by (simp add: char_of_eq_iff)

lemma dec_digits_1: "n < 10 \<Longrightarrow> dec_digits n = [char_of (48 + n)]"
  by (subst dec_digits.simps) simp

lemma dec_digits_2:
  "10 \<le> n \<Longrightarrow> n < 100 \<Longrightarrow> dec_digits n = [char_of (48 + n div 10), char_of (48 + n mod 10)]"
  by (subst dec_digits.simps) (simp add: dec_digits_1)

lemma dec_digits_3:
  assumes "100 \<le> n" and "n < 1000"
  shows "dec_digits n =
           [char_of (48 + n div 100), char_of (48 + n div 10 mod 10), char_of (48 + n mod 10)]"
proof -
  have "10 \<le> n div 10" "n div 10 < 100" "n div 10 div 10 = n div 100"
    using assms by (simp_all add: div_mult2_eq [symmetric])
  with assms show ?thesis
    by (subst dec_digits.simps) (simp add: dec_digits_2)
qed

lemma format_03d_three_digits:
  assumes "0 \<le> i" and "i < 1000"
  shows "format_03d i =
           [char_of (48 + nat i div 100), char_of (48 + nat i div 10 mod 10),
            char_of (48 + nat i mod 10)]"
proof -
  define n where "n = nat i"
  have n: "n < 1000" using assms by (simp add: n_def)
  have f: "format_03d i = zero_fill 3 (dec_digits n)"
    using assms by (simp add: format_03d_def n_def)
  consider "n < 10" | "10 \<le> n" "n < 100" | "100 \<le> n" by linarith
  then have "zero_fill 3 (dec_digits n) =
           [char_of (48 + n div 100), char_of (48 + n div 10 mod 10), char_of (48 + n mod 10)]"
  proof cases
    case 1
    then show ?thesis
      by (simp add: dec_digits_1 zero_fill_def numeral_2_eq_2 char_of_48)
  next
    case 2
    then show ?thesis
      by (simp add: dec_digits_2 zero_fill_def char_of_48)
  next
    case 3
    with n show ?thesis
      by (simp add: dec_digits_3 zero_fill_def)
  qed
  with f show ?thesis by (simp add: n_def)
qed

lemma format_03d_7: "format_03d 7 = ''007''"
  by (simp add: format_03d_three_digits char_of_eq_iff)

lemma sanitize_filename_unfold:
  "sanitize_filename name idx =
     (if py_strip (filter keeps name) = [] then ''sample_'' @ format_03d idx
      else py_strip (filter keeps name))"
  by (cases "name = []") (simp_all add: sanitize_filename_def py_strip_Nil)

lemma kick_filtered: "filter keeps ''Kick!! #1'' = ''Kick 1''"
  by (simp add: keeps_def py_isalnum_def)

lemma spaces_filtered: "py_strip (filter keeps ''   '') = []"
  by (simp add: keeps_def py_strip_def py_isspace_def)

lemma mem_map_char_of:
  assumes "\<forall>n\<in>set ns. n < (256 :: nat)"
  shows "c \<in> set (map char_of ns) \<longleftrightarrow> of_char c \<in> set ns"
proof
  assume "c \<in> set (map char_of ns)"
  then obtain n where n: "n \<in> set ns" "c = char_of n" by auto
  with assms have "n < 256" by blast
  then have "of_char (char_of n) = n" by simp
  with n show "of_char c \<in> set ns" by simp
next
  assume "of_char c \<in> set ns"
  then have "char_of (of_char c :: nat) \<in> set (map char_of ns)"
    by (simp only: set_map) (rule imageI)
  then show "c \<in> set (map char_of ns)" by simp
qed

lemma ascii_whitespace_codes:
  "map char_of [9, 10, 11, 12, 13, 28, 29, 30, 31, 32 :: nat] = ascii_whitespace"
  by (simp add: ascii_whitespace_def char_of_eq_iff)

lemma isspace_codes:
  "n < 128 \<Longrightarrow>
   (9 \<le> n \<and> n \<le> 13 \<or> 28 \<le> n \<and> n \<le> 32 \<or> n = 0x85 \<or> n = 0xA0)
   \<longleftrightarrow> n \<in> set [9, 10, 11, 12, 13, 28, 29, 30, 31, 32 :: nat]"
  by (simp only: list.set insert_iff empty_iff) arith

lemma ascii_isspace:
  assumes "of_char c < (128 :: nat)"
  shows "py_isspace c \<longleftrightarrow> c \<in> set ascii_whitespace"
proof -
  have "c \<in> set ascii_whitespace
        \<longleftrightarrow> of_char c \<in> set [9, 10, 11, 12, 13, 28, 29, 30, 31, 32 :: nat]"
    unfolding ascii_whitespace_codes [symmetric] by (rule mem_map_char_of) simp
  also have "\<dots> \<longleftrightarrow> py_isspace c"
    unfolding py_isspace_def Let_def using isspace_codes [OF assms] by simp
  finally show ?thesis by simp
qed

lemma kept_ascii_codes:
  "map char_of [48 ..< 58 :: nat] = ''0123456789''"
  "map char_of [65 ..< 91 :: nat] = ''ABCDEFGHIJKLMNOPQRSTUVWXYZ''"
  "map char_of [97 ..< 123 :: nat] = ''abcdefghijklmnopqrstuvwxyz''"
  "map char_of [32, 95, 45 :: nat] = '' _-''"
  by (simp_all add: char_of_eq_iff upt_rec)

lemma kept_characters_codes:
  "kept_characters =
     map char_of ([48 ..< 58] @ [65 ..< 91] @ [97 ..< 123] @ [32, 95, 45] @ latin1_alnum)"
  unfolding kept_characters_def kept_ascii_codes [symmetric] by simp


lemma kept_codes:
  fixes n :: nat
  shows "n \<in> set ([48 ..< 58] @ [65 ..< 91] @ [97 ..< 123] @ [32, 95, 45] @ latin1_alnum)
   \<longleftrightarrow> ((48 \<le> n \<and> n \<le> 57) \<or> (65 \<le> n \<and> n \<le> 90) \<or> (97 \<le> n \<and> n \<le> 122)
         \<or> n = 0xAA \<or> n = 0xB2 \<or> n = 0xB3 \<or> n = 0xB5 \<or> n = 0xB9 \<or> n = 0xBA
         \<or> (0xBC \<le> n \<and> n \<le> 0xBE) \<or> (0xC0 \<le> n \<and> n \<le> 0xD6)
         \<or> (0xD8 \<le> n \<and> n \<le> 0xF6) \<or> (0xF8 \<le> n \<and> n \<le> 0xFF))
        \<or> n = 32 \<or> n = 95 \<or> n = 45"
proof -
  have lt: "n < 58 \<longleftrightarrow> n \<le> 57" "n < 91 \<longleftrightarrow> n \<le> 90" "n < 123 \<longleftrightarrow> n \<le> 122"
    "n < 0xBF \<longleftrightarrow> n \<le> 0xBE" "n < 0xD7 \<longleftrightarrow> n \<le> 0xD6" "n < 0xF7 \<longleftrightarrow> n \<le> 0xF6"
    "n < 0x100 \<longleftrightarrow> n \<le> 0xFF"
    by linarith+
  show ?thesis
    unfolding latin1_alnum_def set_append set_upt list.set Un_iff insert_iff empty_iff
      atLeastLessThan_iff lt
    by blast
qed

lemma char_eq_code:
  "c = CHR '' '' \<longleftrightarrow> (of_char c :: nat) = 32"
  "c = CHR ''_'' \<longleftrightarrow> (of_char c :: nat) = 95"
  "c = CHR ''-'' \<longleftrightarrow> (of_char c :: nat) = 45"
  using of_char_eq_iff [of c "CHR '' ''", where ?'a = nat]
    of_char_eq_iff [of c "CHR ''_''", where ?'a = nat]
    of_char_eq_iff [of c "CHR ''-''", where ?'a = nat]
  by simp_all

lemma keeps_iff: "keeps c \<longleftrightarrow> c \<in> set kept_characters"
proof -
  have small: "\<forall>n\<in>set ([48 ..< 58] @ [65 ..< 91] @ [97 ..< 123] @ [32, 95, 45] @ latin1_alnum).
                 n < (256 :: nat)"
    by (auto simp: latin1_alnum_def)
  have "c \<in> set kept_characters
        \<longleftrightarrow> of_char c \<in> set ([48 ..< 58] @ [65 ..< 91] @ [97 ..< 123] @ [32, 95, 45]
                                @ latin1_alnum)"
    unfolding kept_characters_codes using small by (rule mem_map_char_of)
  also have "\<dots> \<longleftrightarrow> keeps c"
    unfolding kept_codes keeps_def py_isalnum_def Let_def
    by (simp only: list.set insert_iff empty_iff char_eq_code simp_thms)
  finally show ?thesis by simp
qed

lemma py_strip_decompose:
  "\<exists>pre suf. s = pre @ py_strip s @ suf
             \<and> (\<forall>c\<in>set pre. py_isspace c) \<and> (\<forall>c\<in>set suf. py_isspace c)"
proof -
  define r where "r = dropWhile py_isspace s"
  define pre where "pre = takeWhile py_isspace s"
  define t d where "t = takeWhile py_isspace (rev r)" and "d = dropWhile py_isspace (rev r)"
  have s: "s = pre @ r" by (simp add: pre_def r_def)
  have "rev r = t @ d" by (simp add: t_def d_def)
  then have "rev (rev r) = rev (t @ d)" by (rule arg_cong)
  then have r: "r = rev d @ rev t" by simp
  have strip: "py_strip s = rev d" by (simp add: py_strip_def d_def r_def)
  have p: "\<forall>c\<in>set pre. py_isspace c"
    unfolding pre_def by (auto dest: set_takeWhileD)
  have q: "\<forall>c\<in>set (rev t). py_isspace c"
    unfolding t_def by (auto dest: set_takeWhileD)
  have e: "s = pre @ rev d @ rev t" unfolding r [symmetric] by (rule s)
  have "s = pre @ py_strip s @ rev t" unfolding strip by (rule e)
  with p q show ?thesis by blast
qed

lemma decode_ascii_ignore_ascii:
  "c \<in> set (decode_ascii_ignore bs) \<Longrightarrow> of_char c < (128 :: nat)"
proof -
  assume "c \<in> set (decode_ascii_ignore bs)"
  then obtain b :: byte where b: "b < 0x80" "c = char_of (unat b)"
    unfolding decode_ascii_ignore_def set_map set_filter by blast
  from b(1) have "unat b < 128" by (simp add: word_less_nat_alt)
  with b(2) show ?thesis by simp
qed

lemma extract_sample_name_eq:
  "extract_sample_name header
   = remove_nul (py_strip (decode_ascii_ignore (take 16 header)))"
  by (simp add: extract_sample_name_def extract_sample_name_try_def py_slice_prefix)

lemma extract_sample_name_parts:
  "\<exists>pre mid suf.
      map (\<lambda>b. char_of (unat b)) (filter (\<lambda>b. b < 0x80) (take 16 header)) = pre @ mid @ suf
      \<and> set pre \<subseteq> set ascii_whitespace \<and> set suf \<subseteq> set ascii_whitespace
      \<and> (mid = [] \<or> (hd mid \<notin> set ascii_whitespace \<and> last mid \<notin> set ascii_whitespace))
      \<and> extract_sample_name header = filter (\<lambda>c. c \<noteq> CHR 0x00) mid"
proof -
  define d where "d = decode_ascii_ignore (take 16 header)"
  obtain pre suf where ps: "d = pre @ py_strip d @ suf"
    "\<forall>c\<in>set pre. py_isspace c" "\<forall>c\<in>set suf. py_isspace c"
    using py_strip_decompose [of d] by blast
  have ascii: "of_char c < (128 :: nat)" if "c \<in> set d" for c
    using that unfolding d_def by (rule decode_ascii_ignore_ascii)
  have in_d: "set pre \<subseteq> set d" "set (py_strip d) \<subseteq> set d" "set suf \<subseteq> set d"
  proof -
    have "set d = set pre \<union> set (py_strip d) \<union> set suf"
      by (subst ps(1)) auto
    then show "set pre \<subseteq> set d" "set (py_strip d) \<subseteq> set d" "set suf \<subseteq> set d"
      by auto
  qed
  have a: "set pre \<subseteq> set ascii_whitespace"
    using ps(2) in_d(1) ascii ascii_isspace by blast
  have b: "set suf \<subseteq> set ascii_whitespace"
    using ps(3) in_d(3) ascii ascii_isspace by blast
  have c: "py_strip d = []
           \<or> (hd (py_strip d) \<notin> set ascii_whitespace \<and> last (py_strip d) \<notin> set ascii_whitespace)"
  proof (cases "py_strip d = []")
    case True
    then show ?thesis by simp
  next
    case False
    then have "hd (py_strip d) \<in> set d" "last (py_strip d) \<in> set d"
      using in_d(2) by auto
    then have "of_char (hd (py_strip d)) < (128 :: nat)" "of_char (last (py_strip d)) < (128 :: nat)"
      by (simp_all add: ascii)
    with py_strip_trimmed [OF False] show ?thesis
      by (simp add: ascii_isspace)
  qed
  have e: "extract_sample_name header = filter (\<lambda>c. c \<noteq> CHR 0x00) (py_strip d)"
    by (simp add: extract_sample_name_eq d_def remove_nul_def)
  have f: "map (\<lambda>b. char_of (unat b)) (filter (\<lambda>b. b < 0x80) (take 16 header))
           = pre @ py_strip d @ suf"
    using ps(1) by (simp add: d_def decode_ascii_ignore_def)
  from f a b c e show ?thesis by blast
qed

lemma name_field_3:
  "decode_ascii_ignore
     (py_slice ([0x20, 0x09, 0x4B, 0x69, 0x00, 0x63, 0x6B, 0x0A] @ replicate 8 0x20
                @ replicate 64 0) 0 16)
   = [CHR '' '', CHR 0x09, CHR ''K'', CHR ''i'', CHR 0x00, CHR ''c'', CHR ''k'', CHR 0x0A]
     @ replicate 8 (CHR '' '')"
  by (simp add: py_slice_prefix decode_ascii_ignore_def char_of_eq_iff)

lemma dropWhile_spaces:
  "dropWhile py_isspace (replicate n (CHR '' '') @ ys) = dropWhile py_isspace ys"
  by (induction n) (simp_all add: py_isspace_def)

lemma strip_field_3:
  "py_strip ([CHR '' '', CHR 0x09, CHR ''K'', CHR ''i'', CHR 0x00, CHR ''c'', CHR ''k'', CHR 0x0A]
     @ replicate 8 (CHR '' ''))
   = [CHR ''K'', CHR ''i'', CHR 0x00, CHR ''c'', CHR ''k'']"
  by (simp add: py_strip_def dropWhile_spaces) (simp add: py_isspace_def)

lemma digit_char:
  assumes "k < 10"
  shows "char_of (48 + k) \<in> set ''0123456789''" and "of_char (char_of (48 + k)) - 48 = k"
    and "(of_char (char_of (48 + k)) :: nat) = 48 + k"
proof -
  have v: "(of_char (char_of (48 + k)) :: nat) = 48 + k" using assms by simp
  show "(of_char (char_of (48 + k)) :: nat) = 48 + k" by (rule v)
  show "of_char (char_of (48 + k)) - 48 = k" using v by simp
  have "48 + k \<in> set [48 ..< 58 :: nat]"
    using assms unfolding set_upt atLeastLessThan_iff by arith
  then have "char_of (48 + k) \<in> char_of ` set [48 ..< 58 :: nat]" by (rule imageI)
  then show "char_of (48 + k) \<in> set ''0123456789''"
    unfolding kept_ascii_codes(1) [symmetric] set_map .
qed

lemma decimal_value_snoc:
  "decimal_value (s @ [c]) = 10 * decimal_value s + (of_char c - 48)"
  by (simp add: decimal_value_def)

lemma decimal_value_zeros: "decimal_value (replicate k (CHR ''0'') @ s) = decimal_value s"
proof -
  have "foldl (\<lambda>a c. 10 * a + (of_char c - 48)) 0 (replicate k (CHR ''0'')) = (0 :: nat)"
    by (induction k) simp_all
  then show ?thesis by (simp add: decimal_value_def)
qed

lemma dec_digits_value: "decimal_value (dec_digits n) = n"
proof (induction n rule: dec_digits.induct)
  case (1 n)
  show ?case
  proof (cases "n < 10")
    case True
    then show ?thesis
      by (simp add: dec_digits_1 decimal_value_def digit_char(2))
  next
    case False
    have m: "n mod 10 < 10" by simp
    have "dec_digits n = dec_digits (n div 10) @ [char_of (48 + n mod 10)]"
      using False by (subst dec_digits.simps) simp
    then have "decimal_value (dec_digits n) = 10 * (n div 10) + n mod 10"
      using 1 [OF False] by (simp only: decimal_value_snoc digit_char(2) [OF m])
    then show ?thesis by simp
  qed
qed

lemma dec_digits_digits: "set (dec_digits n) \<subseteq> set ''0123456789''"
proof (induction n rule: dec_digits.induct)
  case (1 n)
  show ?case
  proof (cases "n < 10")
    case True
    then show ?thesis
      using digit_char(1) [OF True] by (simp add: dec_digits_1)
  next
    case False
    have m: "n mod 10 < 10" by simp
    have "dec_digits n = dec_digits (n div 10) @ [char_of (48 + n mod 10)]"
      using False by (subst dec_digits.simps) simp
    then show ?thesis
      using 1 [OF False] digit_char(1) [OF m] by simp
  qed
qed

lemma dec_digits_nonempty: "dec_digits n \<noteq> []"
  by (subst dec_digits.simps) simp

lemma dec_digits_hd: "0 < n \<Longrightarrow> hd (dec_digits n) \<noteq> CHR ''0''"
proof (induction n rule: dec_digits.induct)
  case (1 n)
  show ?case
  proof (cases "n < 10")
    case True
    have "(of_char (hd (dec_digits n)) :: nat) = 48 + n"
      using True by (simp add: dec_digits_1)
    with "1.prems" have "(of_char (hd (dec_digits n)) :: nat) \<noteq> of_char (CHR ''0'')"
      by simp
    then show ?thesis by metis
  next
    case False
    then have "0 < n div 10" by simp
    have "dec_digits n = dec_digits (n div 10) @ [char_of (48 + n mod 10)]"
      using False by (subst dec_digits.simps) simp
    then have "hd (dec_digits n) = hd (dec_digits (n div 10))"
      by (simp add: dec_digits_nonempty)
    with 1(1) [OF False \<open>0 < n div 10\<close>] show ?thesis by simp
  qed
qed

lemma dec_digits_long: "1 < length (dec_digits n) \<Longrightarrow> 0 < n"
  by (cases "n < 10") (simp_all add: dec_digits_1)

lemma zero_fill_facts:
  assumes "set s \<subseteq> set ''0123456789''"
  shows "set (zero_fill w s) \<subseteq> set ''0123456789''"
    and "decimal_value (zero_fill w s) = decimal_value s"
    and "w \<le> length (zero_fill w s)"
    and "w < length (zero_fill w s) \<Longrightarrow> zero_fill w s = s"
proof -
  show "set (zero_fill w s) \<subseteq> set ''0123456789''"
    using assms by (auto simp: zero_fill_def)
  show "decimal_value (zero_fill w s) = decimal_value s"
    by (simp add: zero_fill_def decimal_value_zeros)
  show "w \<le> length (zero_fill w s)"
    by (simp add: zero_fill_def)
  show "zero_fill w s = s" if "w < length (zero_fill w s)"
    using that by (cases "length s < w") (simp_all add: zero_fill_def)
qed

lemma zero_fill_hd:
  assumes "0 < w" and "w < length (zero_fill w (dec_digits n))"
  shows "hd (zero_fill w (dec_digits n)) \<noteq> CHR ''0''"
proof -
  have e: "zero_fill w (dec_digits n) = dec_digits n"
    using assms(2) by (rule zero_fill_facts(4) [OF dec_digits_digits])
  with assms have "1 < length (dec_digits n)" by simp
  then have "0 < n" by (rule dec_digits_long)
  then show ?thesis unfolding e by (rule dec_digits_hd)
qed

lemma format_03d_nonneg:
  assumes "0 \<le> i"
  shows "set (format_03d i) \<subseteq> set ''0123456789''"
    and "decimal_value (format_03d i) = nat i"
    and "3 \<le> length (format_03d i)"
    and "3 < length (format_03d i) \<Longrightarrow> hd (format_03d i) \<noteq> CHR ''0''"
proof -
  have f: "format_03d i = zero_fill 3 (dec_digits (nat i))"
    using assms by (simp add: format_03d_def)
  show "set (format_03d i) \<subseteq> set ''0123456789''"
    unfolding f by (rule zero_fill_facts(1) [OF dec_digits_digits])
  show "decimal_value (format_03d i) = nat i"
    unfolding f by (simp only: zero_fill_facts(2) [OF dec_digits_digits] dec_digits_value)
  show "3 \<le> length (format_03d i)"
    unfolding f by (rule zero_fill_facts(3) [OF dec_digits_digits])
  show "hd (format_03d i) \<noteq> CHR ''0''" if "3 < length (format_03d i)"
    using that unfolding f by (intro zero_fill_hd) simp_all
qed

lemma format_03d_negative:
  assumes "i < 0"
  shows "\<exists>s. format_03d i = CHR ''-'' # s
             \<and> set s \<subseteq> set ''0123456789'' \<and> decimal_value s = nat (- i)
             \<and> 2 \<le> length s \<and> (length s \<le> 2 \<or> hd s \<noteq> CHR ''0'')"
proof -
  define s where "s = zero_fill 2 (dec_digits (nat (- i)))"
  have f: "format_03d i = CHR ''-'' # s"
    using assms by (simp add: format_03d_def s_def)
  have a: "set s \<subseteq> set ''0123456789''"
    unfolding s_def by (rule zero_fill_facts(1) [OF dec_digits_digits])
  have b: "decimal_value s = nat (- i)"
    unfolding s_def by (simp only: zero_fill_facts(2) [OF dec_digits_digits] dec_digits_value)
  have c: "2 \<le> length s"
    unfolding s_def by (rule zero_fill_facts(3) [OF dec_digits_digits])
  have d: "length s \<le> 2 \<or> hd s \<noteq> CHR ''0''"
  proof (cases "2 < length s")
    case True
    then have "hd s \<noteq> CHR ''0''"
      unfolding s_def by (intro zero_fill_hd) simp_all
    then show ?thesis by simp
  next
    case False
    then show ?thesis by simp
  qed
  from f a b c d show ?thesis by blast
qed

lemma space_code:
  fixes n :: nat
  assumes "(9 \<le> n \<and> n \<le> 13) \<or> (28 \<le> n \<and> n \<le> 32) \<or> n = 0x85 \<or> n = 0xA0"
    and "((48 \<le> n \<and> n \<le> 57) \<or> (65 \<le> n \<and> n \<le> 90) \<or> (97 \<le> n \<and> n \<le> 122)
         \<or> n = 0xAA \<or> n = 0xB2 \<or> n = 0xB3 \<or> n = 0xB5 \<or> n = 0xB9 \<or> n = 0xBA
         \<or> (0xBC \<le> n \<and> n \<le> 0xBE) \<or> (0xC0 \<le> n \<and> n \<le> 0xD6)
         \<or> (0xD8 \<le> n \<and> n \<le> 0xF6) \<or> (0xF8 \<le> n \<and> n \<le> 0xFF))
        \<or> n = 32 \<or> n = 95 \<or> n = 45"
  shows "n = 32"
  using assms(1)
proof (elim disjE)
  assume "9 \<le> n \<and> n \<le> 13"
  with assms(2) show ?thesis by linarith
next
  assume "28 \<le> n \<and> n \<le> 32"
  with assms(2) show ?thesis by linarith
next
  assume "n = 0x85"
  with assms(2) show ?thesis by simp
next
  assume "n = 0xA0"
  with assms(2) show ?thesis by simp
qed

lemma kept_space: "keeps c \<Longrightarrow> py_isspace c \<Longrightarrow> c = CHR '' ''"
proof -
  assume k: "keeps c" and w: "py_isspace c"
  have "(of_char c :: nat) = 32"
    using w k unfolding py_isspace_def keeps_def py_isalnum_def Let_def
      list.set insert_iff empty_iff char_eq_code simp_thms
    by (rule space_code)
  then show ?thesis by (simp only: char_eq_code)
qed

lemma all_same_replicate: "\<forall>c\<in>set xs. c = x \<Longrightarrow> xs = replicate (length xs) x"
  by (induction xs) simp_all

lemma sanitize_filename_parts:
  "\<exists>a b mid.
      filter (\<lambda>c. c \<in> set kept_characters) name
        = replicate a (CHR '' '') @ mid @ replicate b (CHR '' '')
      \<and> (mid = [] \<or> (hd mid \<noteq> CHR '' '' \<and> last mid \<noteq> CHR '' ''))
      \<and> sanitize_filename name idx = (if mid = [] then ''sample_'' @ format_03d idx else mid)"
proof -
  define s where "s = filter keeps name"
  have s_alt: "filter (\<lambda>c. c \<in> set kept_characters) name = s"
    unfolding s_def by (rule filter_cong) (simp_all add: keeps_iff)
  have kept: "keeps c" if "c \<in> set s" for c using that by (simp add: s_def)
  obtain pre suf where ps: "s = pre @ py_strip s @ suf"
    "\<forall>c\<in>set pre. py_isspace c" "\<forall>c\<in>set suf. py_isspace c"
    using py_strip_decompose [of s] by blast
  have sub: "set pre \<subseteq> set s" "set suf \<subseteq> set s"
  proof -
    have "set s = set pre \<union> set (py_strip s) \<union> set suf"
      by (subst ps(1)) auto
    then show "set pre \<subseteq> set s" "set suf \<subseteq> set s" by auto
  qed
  define a b where "a = length pre" and "b = length suf"
  have "\<forall>c\<in>set pre. c = CHR '' ''" using ps(2) sub(1) kept kept_space by blast
  then have pre: "pre = replicate a (CHR '' '')"
    unfolding a_def by (rule all_same_replicate)
  have "\<forall>c\<in>set suf. c = CHR '' ''" using ps(3) sub(2) kept kept_space by blast
  then have suf: "suf = replicate b (CHR '' '')"
    unfolding b_def by (rule all_same_replicate)
  have sp: "py_isspace (CHR '' '')" by (simp add: py_isspace_def)
  have ends: "py_strip s = [] \<or> (hd (py_strip s) \<noteq> CHR '' '' \<and> last (py_strip s) \<noteq> CHR '' '')"
  proof (cases "py_strip s = []")
    case True
    then show ?thesis by simp
  next
    case False
    from py_strip_trimmed [OF False] sp show ?thesis by auto
  qed
  have res: "sanitize_filename name idx
             = (if py_strip s = [] then ''sample_'' @ format_03d idx else py_strip s)"
    unfolding s_def by (rule sanitize_filename_unfold)
  have dec: "filter (\<lambda>c. c \<in> set kept_characters) name
             = replicate a (CHR '' '') @ py_strip s @ replicate b (CHR '' '')"
    unfolding s_alt pre [symmetric] suf [symmetric] by (rule ps(1))
  from dec ends res show ?thesis by blast
qed

text \<open>
  C10: \<open>extract_sample_name\<close> applies \<open>strip()\<close> to the decoded name field and
  removes the NUL characters afterwards. For every header, the ASCII bytes of the first
  16 header bytes, read as characters, split into a run of white space, a middle part
  that neither starts nor ends with white space, and a run of white space, and the
  result is the middle part without its NUL characters. So white space at the ends of
  the field is removed (\<open>" \t" "Ki" 00 "ck" "\n" "        "\<close> gives \<open>"Kick"\<close>), while
  white space that a NUL separates from the end stays: \<open>00 20 "Kick" 00 ...\<close> gives
  \<open>" Kick"\<close> and \<open>"Kick" 20 00 ...\<close> gives \<open>"Kick "\<close>, where removing the NULs
  first would give \<open>"Kick"\<close>. For every header the body of the \<open>try\<close> returns a
  value (nothing is raised), and the returned name has no NUL.
\<close>

theorem extract_sample_name_whitespace:
  "extract_sample_name ([0x00, 0x20, 0x4B, 0x69, 0x63, 0x6B] @ replicate 74 0) = '' Kick''
   \<and> extract_sample_name ([0x4B, 0x69, 0x63, 0x6B, 0x20] @ replicate 75 0) = ''Kick ''
   \<and> py_strip (remove_nul (decode_ascii_ignore
        (py_slice ([0x00, 0x20, 0x4B, 0x69, 0x63, 0x6B] @ replicate 74 0) 0 16))) = ''Kick''
   \<and> extract_sample_name_try header = Inr (extract_sample_name header)
   \<and> CHR 0x00 \<notin> set (extract_sample_name header)
   \<and> extract_sample_name
        ([0x20, 0x09, 0x4B, 0x69, 0x00, 0x63, 0x6B, 0x0A] @ replicate 8 0x20 @ replicate 64 0)
       = ''Kick''
   \<and> (\<exists>pre mid suf.
        map (\<lambda>b. char_of (unat b)) (filter (\<lambda>b. b < 0x80) (take 16 header)) = pre @ mid @ suf
        \<and> set pre \<subseteq> set ascii_whitespace \<and> set suf \<subseteq> set ascii_whitespace
        \<and> (mid = [] \<or> (hd mid \<notin> set ascii_whitespace \<and> last mid \<notin> set ascii_whitespace))
        \<and> extract_sample_name header = filter (\<lambda>c. c \<noteq> CHR 0x00) mid)"
proof -
  let ?f1 = "[CHR 0x00, CHR '' '', CHR ''K'', CHR ''i'', CHR ''c'', CHR ''k'']
             @ replicate 10 (CHR 0x00)"
  let ?f2 = "[CHR ''K'', CHR ''i'', CHR ''c'', CHR ''k'', CHR '' ''] @ replicate 11 (CHR 0x00)"
  have s1: "py_strip ?f1 = ?f1" and s2: "py_strip ?f2 = ?f2"
    by (rule py_strip_keep; simp add: isspace_values)+
  have a: "extract_sample_name ([0x00, 0x20, 0x4B, 0x69, 0x63, 0x6B] @ replicate 74 0) = '' Kick''"
    unfolding extract_sample_name_def extract_sample_name_try_def name_field_1 s1
    by (simp add: remove_nul_def)
  have b: "extract_sample_name ([0x4B, 0x69, 0x63, 0x6B, 0x20] @ replicate 75 0) = ''Kick ''"
    unfolding extract_sample_name_def extract_sample_name_try_def name_field_2 s2
    by (simp add: remove_nul_def)
  have c: "py_strip (remove_nul (decode_ascii_ignore
        (py_slice ([0x00, 0x20, 0x4B, 0x69, 0x63, 0x6B] @ replicate 74 0) 0 16))) = ''Kick''"
    unfolding name_field_1
    by (simp add: remove_nul_def py_strip_def isspace_values)
  have d: "extract_sample_name_try header = Inr (extract_sample_name header)"
    by (simp add: extract_sample_name_def extract_sample_name_try_def)
  have e: "CHR 0x00 \<notin> set (extract_sample_name header)"
    by (simp add: extract_sample_name_def extract_sample_name_try_def remove_nul_no_nul)
  have f: "extract_sample_name
        ([0x20, 0x09, 0x4B, 0x69, 0x00, 0x63, 0x6B, 0x0A] @ replicate 8 0x20 @ replicate 64 0)
       = ''Kick''"
    unfolding extract_sample_name_def extract_sample_name_try_def name_field_3 strip_field_3
    by (simp add: remove_nul_def)
  note g = extract_sample_name_parts [of header]
  show ?thesis
    by (rule conjI [OF a conjI [OF b conjI [OF c conjI [OF d conjI [OF e conjI [OF f g]]]]]])
qed

lemma dec_digits_step:
  "10 \<le> n \<Longrightarrow> dec_digits n = dec_digits (n div 10) @ [char_of (48 + n mod 10)]"
  by (subst dec_digits.simps) simp

lemma format_03d_examples: "format_03d 65535 = ''65535''" "format_03d (- 5) = ''-05''"
  by (simp_all add: format_03d_def zero_fill_def dec_digits_step dec_digits_1 char_of_eq_iff)

text \<open>
  C9: \<open>sanitize_filename\<close> keeps the characters of \<open>kept_characters\<close> (the
  alphanumeric characters, the space, the underscore and the hyphen) and trims white
  space from both ends: the kept characters of the name are a run of spaces, a middle
  part that neither starts nor ends with a space, and a run of spaces, and the result is
  the middle part, or, when the middle part is empty (the name is empty, or nothing but
  spaces is kept), \<open>"sample_"\<close> followed by \<open>f"{idx:03d}"\<close>. For every index
  \<open>idx \<ge> 0\<close> that is a string of decimal digits with the value \<open>idx\<close>, of length
  at least 3 and with a leading zero only to reach that length (for an index from 0 to
  999 its three decimal digits); for \<open>idx < 0\<close> it is the minus sign followed by such
  a string of length at least 2 for \<open>- idx\<close>. The result is never empty; unless it is
  the fallback it consists of kept characters only and neither starts nor ends with
  white space. \<open>"Kick!! #1"\<close> gives \<open>"Kick 1"\<close>; the empty name and the name of three
  spaces give \<open>"sample_007"\<close> for index 7.
\<close>

theorem sanitize_filename_spec:
  "sanitize_filename name idx =
     (if py_strip (filter keeps name) = [] then ''sample_'' @ format_03d idx
      else py_strip (filter keeps name))
   \<and> sanitize_filename name idx \<noteq> []
   \<and> set (py_strip (filter keeps name)) \<subseteq> Collect keeps
   \<and> (py_strip (filter keeps name) = []
        \<or> (\<not> py_isspace (hd (py_strip (filter keeps name)))
            \<and> \<not> py_isspace (last (py_strip (filter keeps name)))))
   \<and> (0 \<le> idx \<and> idx < 1000 \<longrightarrow>
        format_03d idx = [char_of (48 + nat idx div 100), char_of (48 + nat idx div 10 mod 10),
                          char_of (48 + nat idx mod 10)])
   \<and> sanitize_filename ''Kick!! #1'' idx = ''Kick 1''
   \<and> sanitize_filename [] 7 = ''sample_007''
   \<and> sanitize_filename ''   '' 7 = ''sample_007''
   \<and> keeps c = (c \<in> set kept_characters)
   \<and> (\<exists>a b mid.
        filter (\<lambda>c. c \<in> set kept_characters) name
          = replicate a (CHR '' '') @ mid @ replicate b (CHR '' '')
        \<and> (mid = [] \<or> (hd mid \<noteq> CHR '' '' \<and> last mid \<noteq> CHR '' ''))
        \<and> sanitize_filename name idx = (if mid = [] then ''sample_'' @ format_03d idx else mid))
   \<and> (0 \<le> idx \<longrightarrow>
        set (format_03d idx) \<subseteq> set ''0123456789''
        \<and> decimal_value (format_03d idx) = nat idx
        \<and> 3 \<le> length (format_03d idx)
        \<and> (3 < length (format_03d idx) \<longrightarrow> hd (format_03d idx) \<noteq> CHR ''0''))
   \<and> (idx < 0 \<longrightarrow>
        (\<exists>s. format_03d idx = CHR ''-'' # s
             \<and> set s \<subseteq> set ''0123456789'' \<and> decimal_value s = nat (- idx)
             \<and> 2 \<le> length s \<and> (2 < length s \<longrightarrow> hd s \<noteq> CHR ''0'')))"
proof -
  have ne: "sanitize_filename name idx \<noteq> []"
    by (simp add: sanitize_filename_unfold)
  have sub: "set (py_strip (filter keeps name)) \<subseteq> Collect keeps"
    using set_py_strip [of "filter keeps name"] by auto
  have trim: "py_strip (filter keeps name) = []
        \<or> (\<not> py_isspace (hd (py_strip (filter keeps name)))
            \<and> \<not> py_isspace (last (py_strip (filter keeps name))))"
    using py_strip_trimmed [of "filter keeps name"] by blast
  have "py_strip ''Kick 1'' = ''Kick 1''"
    by (rule py_strip_keep) (simp_all add: isspace_values)
  then have kick: "sanitize_filename ''Kick!! #1'' idx = ''Kick 1''"
    unfolding sanitize_filename_unfold kick_filtered by simp
  have empty: "sanitize_filename [] 7 = ''sample_007''"
    by (simp add: sanitize_filename_def format_03d_7)
  have spaces: "sanitize_filename ''   '' 7 = ''sample_007''"
    unfolding sanitize_filename_unfold spaces_filtered by (simp add: format_03d_7)
  have fmt: "0 \<le> idx \<and> idx < 1000 \<longrightarrow>
        format_03d idx = [char_of (48 + nat idx div 100), char_of (48 + nat idx div 10 mod 10),
                          char_of (48 + nat idx mod 10)]"
    by (simp add: format_03d_three_digits)
  have kc: "keeps c = (c \<in> set kept_characters)" by (rule keeps_iff)
  note parts = sanitize_filename_parts [of name idx]
  have pos: "0 \<le> idx \<longrightarrow>
        set (format_03d idx) \<subseteq> set ''0123456789''
        \<and> decimal_value (format_03d idx) = nat idx
        \<and> 3 \<le> length (format_03d idx)
        \<and> (3 < length (format_03d idx) \<longrightarrow> hd (format_03d idx) \<noteq> CHR ''0'')"
    using format_03d_nonneg [of idx] by blast
  have neg: "idx < 0 \<longrightarrow>
        (\<exists>s. format_03d idx = CHR ''-'' # s
             \<and> set s \<subseteq> set ''0123456789'' \<and> decimal_value s = nat (- idx)
             \<and> 2 \<le> length s \<and> (2 < length s \<longrightarrow> hd s \<noteq> CHR ''0''))"
  proof
    assume "idx < 0"
    from format_03d_negative [OF this]
    obtain s where s: "format_03d idx = CHR ''-'' # s" "set s \<subseteq> set ''0123456789''"
      "decimal_value s = nat (- idx)" "2 \<le> length s" "length s \<le> 2 \<or> hd s \<noteq> CHR ''0''"
      by blast
    from s(5) have "2 < length s \<longrightarrow> hd s \<noteq> CHR ''0''" by auto
    with s(1-4) show "\<exists>s. format_03d idx = CHR ''-'' # s
             \<and> set s \<subseteq> set ''0123456789'' \<and> decimal_value s = nat (- idx)
             \<and> 2 \<le> length s \<and> (2 < length s \<longrightarrow> hd s \<noteq> CHR ''0'')"
      by blast
  qed
  note first = sanitize_filename_unfold [of name idx]
  show ?thesis
    by (rule conjI [OF first conjI [OF ne conjI [OF sub conjI [OF trim conjI [OF fmt
          conjI [OF kick conjI [OF empty conjI [OF spaces conjI [OF kc conjI [OF parts
          conjI [OF pos neg]]]]]]]]]]])
qed

theorem sanitize_filename_spec_witness:
  "(0 :: int) \<le> 42 \<and> (42 :: int) < 1000
   \<and> format_03d 42 = ''042''
   \<and> sanitize_filename ''?!'' 42 = ''sample_042''
   \<and> sanitize_filename ''Snare_01-b'' 42 = ''Snare_01-b''
   \<and> (0 :: int) \<le> 65535
   \<and> decimal_value (format_03d 65535) = 65535
   \<and> sanitize_filename [] 65535 = ''sample_65535''
   \<and> sanitize_filename [] (- 5) = ''sample_-05''"
proof -
  have f: "filter keeps ''?!'' = []" and g: "filter keeps ''Snare_01-b'' = ''Snare_01-b''"
    by (simp_all add: keeps_def py_isalnum_def)
  have s: "py_strip ''Snare_01-b'' = ''Snare_01-b''"
    by (rule py_strip_keep) (simp_all add: py_isspace_def)
  from sanitize_filename_spec [of "''?!''" 42]
  have fmt: "format_03d 42 = ''042''" by (simp add: char_of_eq_iff)
  from sanitize_filename_spec [of "''?!''" 42]
  have a: "sanitize_filename ''?!'' 42 = ''sample_042''"
    unfolding f py_strip_Nil fmt by simp
  from sanitize_filename_spec [of "''Snare_01-b''" 42]
  have b: "sanitize_filename ''Snare_01-b'' 42 = ''Snare_01-b''"
    unfolding g s by simp
  from sanitize_filename_spec [of "[]" 65535]
  have c: "decimal_value (format_03d 65535) = 65535" by simp
  have d: "sanitize_filename [] 65535 = ''sample_65535''"
    "sanitize_filename [] (- 5) = ''sample_-05''"
    by (simp_all add: sanitize_filename_def format_03d_examples)
  from fmt a b c d show ?thesis by simp
qed

section \<open>Extraction Orchestrator\<close>

text \<open>
  The orchestrator works on the file system. Its state is a value of a type \<open>'fs\<close>,
  and the operations the source calls on it are the fields of an environment:
  \<open>mta_path.exists()\<close>, \<open>mta_path.read_bytes()\<close>,
  \<open>out_dir.mkdir(parents=True, exist_ok=True)\<close>, and the block that opens the
  output file with \<open>wave.open\<close>, sets channels, sample width 2 and frame rate, and
  writes the frames. \<open>write_wav\<close> takes the file name, the channel count, the sample
  rate and the frames; it returns the new state, with the exception if one was raised.
  \<open>native_order\<close> is the byte order of the machine. The messages printed by the
  source are left out.
\<close>

record 'fs env =
  native_order :: byteorder
  path_exists :: "'fs \<Rightarrow> bool"
  read_bytes :: "'fs \<Rightarrow> error + byte list"
  mkdir :: "'fs \<Rightarrow> error + 'fs"
  write_wav :: "string \<Rightarrow> int \<Rightarrow> int \<Rightarrow> byte list \<Rightarrow> 'fs \<Rightarrow> error option \<times> 'fs"

text \<open>
  One pass of the loop body, the \<open>try\<close> block with its \<open>except Exception\<close>:
  \<^verbatim>\<open>
  for i, (idx, start) in enumerate(entries):
      try:
          if i + 1 < len(entries):
              size = entries[i+1][1] - start
          else:
              size = len(data) - start
          if size < 80:
              continue
          header = data[start:start+80]
          name = extract_sample_name(header)
          sample_rate, channels = parse_audio_header(header)
          pcm_start = start + 80
          pcm_data = data[pcm_start:start+size]
          if len(pcm_data) < 2:
              continue
          processed_pcm = process_pcm_data(pcm_data, channels)
          clean_name = sanitize_filename(name, idx)
          out_path = out_dir / f"{idx:03d}_{clean_name}.wav"
          with wave.open(str(out_path), "wb") as wav:
              ...
              wav.writeframes(processed_pcm)
          extracted_count += 1
      except Exception as e:
          continue
  \<close>
  The outcome of a pass is \<open>Skipped\<close> for a \<open>continue\<close> in the \<open>try\<close> block,
  \<open>Failed\<close> when an exception reached the handler, and \<open>Written\<close> when the pass
  came to \<open>extracted_count += 1\<close>.
\<close>

datatype 'fs outcome = Skipped | Failed error 'fs | Written 'fs

definition extract_entry ::
  "'fs env \<Rightarrow> byte list \<Rightarrow> (int \<times> int) list \<Rightarrow> nat \<Rightarrow> int \<Rightarrow> int \<Rightarrow> 'fs \<Rightarrow> 'fs outcome" where
  "extract_entry env data entries i idx start fs =
     (let size = (if i + 1 < length entries then snd (entries ! (i + 1)) - start
                  else int (length data) - start)
      in if size < 80 then Skipped
         else
           let header = py_slice data start (start + 80);
               name = extract_sample_name header
           in case parse_audio_header header of
                Inl e \<Rightarrow> Failed e fs
              | Inr (sample_rate, channels) \<Rightarrow>
                  let pcm_start = start + 80;
                      pcm_data = py_slice data pcm_start (start + size)
                  in if length pcm_data < 2 then Skipped
                     else
                       case process_pcm_data (native_order env) pcm_data channels of
                         Inl e \<Rightarrow> Failed e fs
                       | Inr processed_pcm \<Rightarrow>
                           let clean_name = sanitize_filename name idx;
                               out_name = format_03d idx @ ''_'' @ clean_name @ ''.wav''
                           in case write_wav env out_name channels sample_rate processed_pcm fs of
                                (Some e, fs') \<Rightarrow> Failed e fs'
                              | (None, fs') \<Rightarrow> Written fs')"

text \<open>
  The loop over \<open>enumerate(entries)\<close>, on the part of the enumeration still to do,
  with the loop state: the file system and \<open>extracted_count\<close>.
\<close>

fun extract_entries ::
  "'fs env \<Rightarrow> byte list \<Rightarrow> (int \<times> int) list \<Rightarrow> (nat \<times> int \<times> int) list \<Rightarrow> 'fs \<Rightarrow> int
   \<Rightarrow> int \<times> 'fs" where
  "extract_entries env data entries [] fs extracted_count = (extracted_count, fs)"
| "extract_entries env data entries ((i, idx, start) # rest) fs extracted_count =
     (case extract_entry env data entries i idx start fs of
        Skipped \<Rightarrow> extract_entries env data entries rest fs extracted_count
      | Failed e fs' \<Rightarrow> extract_entries env data entries rest fs' extracted_count
      | Written fs' \<Rightarrow> extract_entries env data entries rest fs' (extracted_count + 1))"

text \<open>
  \<^verbatim>\<open>
  def extract_mta(mta_path, out_dir, verbose=False):
      if not mta_path.exists():
          return 0
      try:
          data = mta_path.read_bytes()
      except Exception as e:
          return 0
      dwav_section_start = find_dwav_section(data)
      if dwav_section_start is None:
          return 0
      entries = parse_audio_entries(data, dwav_section_start)
      if not entries:
          return 0
      out_dir.mkdir(parents=True, exist_ok=True)
      extracted_count = 0
      for ...
      return extracted_count
  \<close>
  The call of \<open>mkdir\<close> is outside every \<open>try\<close>: its exception leaves the function.
\<close>

definition extract_mta :: "'fs env \<Rightarrow> 'fs \<Rightarrow> error + (int \<times> 'fs)" where
  "extract_mta env fs =
     (if \<not> path_exists env fs then Inr (0, fs)
      else case read_bytes env fs of
             Inl e \<Rightarrow> Inr (0, fs)
           | Inr data \<Rightarrow>
               (case find_dwav_section data of
                  None \<Rightarrow> Inr (0, fs)
                | Some dwav_section_start \<Rightarrow>
                    let entries = parse_audio_entries data dwav_section_start
                    in if entries = [] then Inr (0, fs)
                       else case mkdir env fs of
                              Inl e \<Rightarrow> Inl e
                            | Inr fs1 \<Rightarrow>
                                Inr (extract_entries env data entries (enumerate 0 entries) fs1 0)))"

text \<open>
  The run of the loop seen entry by entry: \<open>state_before\<close> is the loop state reached
  after the first \<open>k\<close> entries, and \<open>entry_outcome\<close> the outcome of the pass for
  entry \<open>k\<close> in that state.
\<close>

definition state_before ::
  "'fs env \<Rightarrow> byte list \<Rightarrow> (int \<times> int) list \<Rightarrow> 'fs \<Rightarrow> nat \<Rightarrow> int \<times> 'fs" where
  "state_before env data entries fs1 k =
     extract_entries env data entries (take k (enumerate 0 entries)) fs1 0"

definition entry_outcome ::
  "'fs env \<Rightarrow> byte list \<Rightarrow> (int \<times> int) list \<Rightarrow> 'fs \<Rightarrow> nat \<Rightarrow> 'fs outcome" where
  "entry_outcome env data entries fs1 k =
     extract_entry env data entries k (fst (entries ! k)) (snd (entries ! k))
       (snd (state_before env data entries fs1 k))"

fun is_written :: "'fs outcome \<Rightarrow> bool" where
  "is_written (Written fs) = True"
| "is_written other = False"

section \<open>Extraction Orchestrator: results\<close>

lemma extract_entries_append:
  "extract_entries env data entries (xs @ ys) fs c =
     extract_entries env data entries ys
       (snd (extract_entries env data entries xs fs c))
       (fst (extract_entries env data entries xs fs c))"
proof (induction xs arbitrary: fs c)
  case Nil
  show ?case by simp
next
  case (Cons x xs)
  obtain i idx start where x: "x = (i, idx, start)" by (cases x)
  show ?case
    by (cases "extract_entry env data entries i idx start fs") (simp_all add: x Cons.IH)
qed

lemma extract_entries_single:
  "extract_entries env data entries [(i, e)] fs c =
     (case extract_entry env data entries i (fst e) (snd e) fs of
        Skipped \<Rightarrow> (c, fs) | Failed err fs' \<Rightarrow> (c, fs') | Written fs' \<Rightarrow> (c + 1, fs'))"
  by (cases e; cases "extract_entry env data entries i (fst e) (snd e) fs") simp_all

lemma take_Suc_enumerate:
  "k < length entries \<Longrightarrow>
   take (Suc k) (enumerate 0 entries) = take k (enumerate 0 entries) @ [(k, entries ! k)]"
  by (simp add: take_Suc_conv_app_nth nth_enumerate_eq)

lemma state_before_0: "state_before env data entries fs1 0 = (0, fs1)"
  by (simp add: state_before_def)

lemma state_before_Suc:
  assumes "k < length entries"
  shows "state_before env data entries fs1 (Suc k) =
           (case entry_outcome env data entries fs1 k of
              Skipped \<Rightarrow> state_before env data entries fs1 k
            | Failed e fs' \<Rightarrow> (fst (state_before env data entries fs1 k), fs')
            | Written fs' \<Rightarrow> (fst (state_before env data entries fs1 k) + 1, fs'))"
proof -
  have "state_before env data entries fs1 (Suc k) =
          extract_entries env data entries [(k, entries ! k)]
            (snd (state_before env data entries fs1 k))
            (fst (state_before env data entries fs1 k))"
    unfolding state_before_def take_Suc_enumerate [OF assms] extract_entries_append
    by simp
  then show ?thesis
    by (simp add: extract_entries_single entry_outcome_def split: outcome.splits)
qed

lemma state_before_all:
  "state_before env data entries fs1 (length entries) =
     extract_entries env data entries (enumerate 0 entries) fs1 0"
  by (simp add: state_before_def)

lemma count_step:
  assumes "k < length entries"
  shows "fst (state_before env data entries fs1 (Suc k)) =
           fst (state_before env data entries fs1 k)
           + (if is_written (entry_outcome env data entries fs1 k) then 1 else 0)"
  by (cases "entry_outcome env data entries fs1 k") (simp_all add: state_before_Suc [OF assms])

lemma count_written:
  "k \<le> length entries \<Longrightarrow>
   fst (state_before env data entries fs1 k) =
     int (length (filter (\<lambda>j. is_written (entry_outcome env data entries fs1 j)) [0 ..< k]))"
proof (induction k)
  case 0
  show ?case by (simp add: state_before_0)
next
  case (Suc k)
  then have k: "k < length entries" by simp
  with Suc show ?case by (simp add: count_step [OF k])
qed

text \<open>
  The quantities of one entry as the format describes them: its extent (up to the next
  entry, or to the end of the container for the last one), its 80-byte header, the
  payload after the header, and the name of its output file. An entry fails when its
  extent is below 80, the header parser raises, the payload has fewer than 2 bytes, the
  payload transformer raises, or the writer raises.
\<close>

definition entry_extent :: "byte list \<Rightarrow> (int \<times> int) list \<Rightarrow> nat \<Rightarrow> int \<Rightarrow> int" where
  "entry_extent data entries i start =
     (if i + 1 < length entries then snd (entries ! (i + 1)) - start
      else int (length data) - start)"

definition entry_header :: "byte list \<Rightarrow> int \<Rightarrow> byte list" where
  "entry_header data start = py_slice data start (start + 80)"

definition entry_payload :: "byte list \<Rightarrow> (int \<times> int) list \<Rightarrow> nat \<Rightarrow> int \<Rightarrow> byte list" where
  "entry_payload data entries i start =
     py_slice data (start + 80) (start + entry_extent data entries i start)"

definition entry_file_name :: "byte list \<Rightarrow> int \<Rightarrow> int \<Rightarrow> string" where
  "entry_file_name data idx start =
     format_03d idx @ ''_''
     @ sanitize_filename (extract_sample_name (entry_header data start)) idx @ ''.wav''"

definition entry_fails ::
  "'fs env \<Rightarrow> byte list \<Rightarrow> (int \<times> int) list \<Rightarrow> nat \<Rightarrow> int \<Rightarrow> int \<Rightarrow> 'fs \<Rightarrow> bool" where
  "entry_fails env data entries i idx start fs \<longleftrightarrow>
     entry_extent data entries i start < 80
     \<or> (case parse_audio_header (entry_header data start) of
           Inl e \<Rightarrow> True
         | Inr (sample_rate, channels) \<Rightarrow>
             length (entry_payload data entries i start) < 2
             \<or> (case process_pcm_data (native_order env)
                        (entry_payload data entries i start) channels of
                   Inl e \<Rightarrow> True
                 | Inr processed_pcm \<Rightarrow>
                     fst (write_wav env (entry_file_name data idx start) channels sample_rate
                            processed_pcm fs) \<noteq> None))"

lemma extract_entry_unfold:
  "extract_entry env data entries i idx start fs =
     (if entry_extent data entries i start < 80 then Skipped
      else case parse_audio_header (entry_header data start) of
             Inl e \<Rightarrow> Failed e fs
           | Inr (sample_rate, channels) \<Rightarrow>
               if length (entry_payload data entries i start) < 2 then Skipped
               else case process_pcm_data (native_order env)
                           (entry_payload data entries i start) channels of
                      Inl e \<Rightarrow> Failed e fs
                    | Inr processed_pcm \<Rightarrow>
                        (case write_wav env (entry_file_name data idx start) channels
                                sample_rate processed_pcm fs of
                           (Some e, fs') \<Rightarrow> Failed e fs'
                         | (None, fs') \<Rightarrow> Written fs'))"
  unfolding extract_entry_def entry_extent_def entry_header_def entry_payload_def
    entry_file_name_def Let_def
  by (rule refl)

lemma extract_entry_written_iff:
  "is_written (extract_entry env data entries i idx start fs)
   \<longleftrightarrow> \<not> entry_fails env data entries i idx start fs"
proof (cases "entry_extent data entries i start < 80")
  case True
  then show ?thesis by (simp add: extract_entry_unfold entry_fails_def)
next
  case ext: False
  show ?thesis
  proof (cases "parse_audio_header (entry_header data start)")
    case (Inl e)
    with ext show ?thesis by (simp add: extract_entry_unfold entry_fails_def)
  next
    case (Inr rc)
    obtain sample_rate channels where rc: "rc = (sample_rate, channels)" by (cases rc)
    show ?thesis
    proof (cases "length (entry_payload data entries i start) < 2")
      case True
      with ext Inr rc show ?thesis by (simp add: extract_entry_unfold entry_fails_def)
    next
      case pay: False
      show ?thesis
      proof (cases "process_pcm_data (native_order env)
                      (entry_payload data entries i start) channels")
        case (Inl e)
        with ext Inr rc pay show ?thesis by (simp add: extract_entry_unfold entry_fails_def)
      next
        case pcm: (Inr processed_pcm)
        obtain r fs' where w: "write_wav env (entry_file_name data idx start) channels
                                sample_rate processed_pcm fs = (r, fs')"
          by (cases "write_wav env (entry_file_name data idx start) channels
                                sample_rate processed_pcm fs")
        show ?thesis
          using ext Inr rc pay pcm w
          by (cases r) (simp_all add: extract_entry_unfold entry_fails_def)
      qed
    qed
  qed
qed

lemma extract_mta_run:
  assumes "path_exists env fs" and "read_bytes env fs = Inr data"
    and "find_dwav_section data = Some dwav"
    and "parse_audio_entries data dwav = entries" and "entries \<noteq> []"
    and "mkdir env fs = Inr fs1"
  shows "extract_mta env fs = Inr (state_before env data entries fs1 (length entries))"
proof -
  have "extract_mta env fs = Inr (extract_entries env data entries (enumerate 0 entries) fs1 0)"
    unfolding extract_mta_def by (simp add: assms)
  then show ?thesis by (simp only: state_before_all)
qed

text \<open>
  C4: when the container is read, has a section offset and a nonempty entry table,
  and the output directory is made, \<open>extract_mta\<close> returns the loop state reached
  after all entries, and its count is the number of entries whose pass was written.
  Each entry \<open>k\<close> is processed in the state its predecessors left, whatever their
  outcomes: its pass adds 1 to the count when it is written and leaves the count
  unchanged otherwise, and the loop goes on to entry \<open>k + 1\<close>. A pass is written
  exactly when the entry does not fail, that is when its extent is at least 80, the
  header parser, the payload transformer and the writer raise nothing, and the payload
  has at least 2 bytes.
\<close>

theorem extract_mta_counts_written:
  assumes "path_exists env fs" and "read_bytes env fs = Inr data"
    and "find_dwav_section data = Some dwav"
    and "parse_audio_entries data dwav = entries" and "entries \<noteq> []"
    and "mkdir env fs = Inr fs1"
  shows "extract_mta env fs = Inr (state_before env data entries fs1 (length entries))
         \<and> fst (state_before env data entries fs1 (length entries))
             = int (length (filter (\<lambda>k. is_written (entry_outcome env data entries fs1 k))
                              [0 ..< length entries]))
         \<and> (\<forall>k < length entries.
               fst (state_before env data entries fs1 (Suc k))
               = fst (state_before env data entries fs1 k)
                 + (if is_written (entry_outcome env data entries fs1 k) then 1 else 0))
         \<and> (\<forall>k < length entries.
               is_written (entry_outcome env data entries fs1 k)
               \<longleftrightarrow> \<not> entry_fails env data entries k (fst (entries ! k)) (snd (entries ! k))
                       (snd (state_before env data entries fs1 k)))"
proof -
  have a: "extract_mta env fs = Inr (state_before env data entries fs1 (length entries))"
    using assms by (rule extract_mta_run)
  have b: "fst (state_before env data entries fs1 (length entries))
             = int (length (filter (\<lambda>k. is_written (entry_outcome env data entries fs1 k))
                              [0 ..< length entries]))"
    by (rule count_written) simp
  have c: "\<forall>k < length entries.
               fst (state_before env data entries fs1 (Suc k))
               = fst (state_before env data entries fs1 k)
                 + (if is_written (entry_outcome env data entries fs1 k) then 1 else 0)"
    by (simp add: count_step)
  have d: "\<forall>k < length entries.
               is_written (entry_outcome env data entries fs1 k)
               \<longleftrightarrow> \<not> entry_fails env data entries k (fst (entries ! k)) (snd (entries ! k))
                       (snd (state_before env data entries fs1 k))"
    by (simp add: entry_outcome_def extract_entry_written_iff)
  show ?thesis by (rule conjI [OF a conjI [OF b conjI [OF c d]]])
qed

subsection \<open>A container with two samples\<close>

text \<open>
  A 462-byte container: the file header with the section pointer 200 at 0xC4, the
  32-byte section header, the records \<open>(1, 96)\<close> and \<open>(2, 180)\<close>, a stereo sample
  \<open>Kick\<close> at 296 (rate 44100, 4 payload bytes) and a mono sample \<open>Tom\<close> at 380
  (rate 22050, 2 payload bytes). The table ends at the third record, which is the start
  of the first sample header. The environment keeps the written files in a list.
\<close>

definition example_prefix :: "byte list" where
  "example_prefix =
     replicate 196 0 @ [0, 0, 0, 0xC8] @ replicate 32 0
     @ [0, 0, 0, 1, 0, 0, 0, 0, 0, 0, 0, 96] @ replicate 20 0
     @ [0, 0, 0, 2, 0, 0, 0, 0, 0, 0, 0, 180] @ replicate 20 0"

definition kick_header :: "byte list" where
  "kick_header =
     [0x4B, 0x69, 0x63, 0x6B] @ replicate 50 0 @ [0xAC, 0x44] @ replicate 17 0 @ [2]
     @ replicate 6 0"

definition tom_header :: "byte list" where
  "tom_header =
     [0x54, 0x6F, 0x6D] @ replicate 51 0 @ [0x56, 0x22] @ replicate 17 0 @ [0]
     @ replicate 6 0"

definition example_container :: "byte list" where
  "example_container =
     example_prefix @ kick_header @ [0x12, 0x34, 0x56, 0x78] @ tom_header @ [0x9A, 0xBC]"

definition example_env :: "(string \<times> int \<times> int \<times> byte list) list env" where
  "example_env =
     \<lparr> native_order = Little,
       path_exists = (\<lambda>fs. True),
       read_bytes = (\<lambda>fs. Inr example_container),
       mkdir = (\<lambda>fs. Inr fs),
       write_wav = (\<lambda>name channels rate frames fs. (None, fs @ [(name, channels, rate, frames)])) \<rparr>"

lemma example_lengths:
  "length example_prefix = 296" "length kick_header = 80" "length tom_header = 80"
  "length example_container = 462"
  by (simp_all add: example_prefix_def kick_header_def tom_header_def example_container_def)

lemma py_slice_middle:
  "py_slice (a @ b @ c) (int (length a)) (int (length a) + int (length b)) = b"
proof -
  have lo: "slice_bound (length (a @ b @ c)) (int (length a)) = length a"
    by (simp add: slice_bound_def)
  have hi: "slice_bound (length (a @ b @ c)) (int (length a) + int (length b))
            = length a + length b"
    by (simp add: slice_bound_def nat_add_distrib)
  show ?thesis
    unfolding py_slice_take_drop lo hi by simp
qed

lemma example_dwav: "find_dwav_section example_container = Some 200"
proof -
  have "be32_at example_container 0xC4 = 200"
    by (simp add: be32_at_def example_container_def example_prefix_def nth_append)
  then show ?thesis
    by (simp add: find_dwav_section_def dwav_pointer_slice example_lengths)
qed

lemma example_records:
  "rec_index example_container 200 0 = 1" "rec_pointer example_container 200 0 = 96"
  "rec_index example_container 200 (Suc 0) = 2" "rec_pointer example_container 200 (Suc 0) = 180"
  "rec_index example_container 200 (Suc (Suc 0)) = 1265197931"
proof -
  have f: "rec_offset 200 0 + 32 \<le> int (length example_container)"
    "rec_offset 200 (Suc 0) + 32 \<le> int (length example_container)"
    "rec_offset 200 (Suc (Suc 0)) + 32 \<le> int (length example_container)"
    by (simp_all add: rec_offset_def example_lengths)
  have o: "nat (rec_offset 200 0) = 232" "nat (rec_offset 200 (Suc 0)) = 264"
    "nat (rec_offset 200 (Suc (Suc 0))) = 296"
    by (simp_all add: rec_offset_def)
  show "rec_index example_container 200 0 = 1"
    unfolding rec_index_be32 (1) [OF _ f(1), simplified] o
    by (simp add: be32_at_def example_container_def example_prefix_def nth_append)
  show "rec_pointer example_container 200 0 = 96"
    unfolding rec_index_be32 (2) [OF _ f(1), simplified] o
    by (simp add: be32_at_def example_container_def example_prefix_def nth_append)
  show "rec_index example_container 200 (Suc 0) = 2"
    unfolding rec_index_be32 (1) [OF _ f(2), simplified] o
    by (simp add: be32_at_def example_container_def example_prefix_def nth_append)
  show "rec_pointer example_container 200 (Suc 0) = 180"
    unfolding rec_index_be32 (2) [OF _ f(2), simplified] o
    by (simp add: be32_at_def example_container_def example_prefix_def nth_append)
  show "rec_index example_container 200 (Suc (Suc 0)) = 1265197931"
    unfolding rec_index_be32 (1) [OF _ f(3), simplified] o
    by (simp add: be32_at_def example_container_def example_lengths kick_header_def nth_append)
qed

lemma example_table_ends:
  "\<not> table_end example_container 200 0" "\<not> table_end example_container 200 (Suc 0)"
  "table_end example_container 200 (Suc (Suc 0))"
  by (simp_all add: table_end_def example_records example_lengths)
     (simp_all add: rec_offset_def)

lemma example_entries: "parse_audio_entries example_container 200 = [(1, 296), (2, 380)]"
  unfolding parse_audio_entries_alt
  by (simp add: scan_entries_unfold example_table_ends entry_of_def example_records)

lemma example_headers:
  "entry_header example_container 296 = kick_header"
  "entry_header example_container 380 = tom_header"
proof -
  show "entry_header example_container 296 = kick_header"
    using py_slice_middle [of example_prefix kick_header
            "[0x12, 0x34, 0x56, 0x78] @ tom_header @ [0x9A, 0xBC]"]
    by (simp add: entry_header_def example_container_def example_lengths)
  show "entry_header example_container 380 = tom_header"
    using py_slice_middle [of "example_prefix @ kick_header @ [0x12, 0x34, 0x56, 0x78]"
            tom_header "[0x9A, 0xBC]"]
    by (simp add: entry_header_def example_container_def example_lengths)
qed

lemma example_payloads:
  "entry_extent example_container [(1, 296), (2, 380)] 0 296 = 84"
  "entry_extent example_container [(1, 296), (2, 380)] 1 380 = 82"
  "entry_payload example_container [(1, 296), (2, 380)] 0 296 = [0x12, 0x34, 0x56, 0x78]"
  "entry_payload example_container [(1, 296), (2, 380)] 1 380 = [0x9A, 0xBC]"
proof -
  show e0: "entry_extent example_container [(1, 296), (2, 380)] 0 296 = 84"
    and e1: "entry_extent example_container [(1, 296), (2, 380)] 1 380 = 82"
    by (simp_all add: entry_extent_def example_lengths)
  show "entry_payload example_container [(1, 296), (2, 380)] 0 296 = [0x12, 0x34, 0x56, 0x78]"
    using py_slice_middle [of "example_prefix @ kick_header" "[0x12, 0x34, 0x56, 0x78]"
            "tom_header @ [0x9A, 0xBC]"]
    unfolding entry_payload_def e0
    by (simp add: example_container_def example_lengths)
  show "entry_payload example_container [(1, 296), (2, 380)] 1 380 = [0x9A, 0xBC]"
    using py_slice_middle [of "example_prefix @ kick_header @ [0x12, 0x34, 0x56, 0x78] @ tom_header"
            "[0x9A, 0xBC]" "[]"]
    unfolding entry_payload_def e1
    by (simp add: example_container_def example_lengths)
qed

lemma example_parsed:
  "parse_audio_header kick_header = Inr (44100, 2)"
  "parse_audio_header tom_header = Inr (22050, 1)"
proof -
  have "be16_at kick_header 0x36 = 44100" "kick_header ! 0x49 = 2"
    by (simp_all add: be16_at_def kick_header_def nth_append)
  then show "parse_audio_header kick_header = Inr (44100, 2)"
    by (simp add: parse_audio_header_def header_rate_slice header_channel_byte example_lengths)
  have "be16_at tom_header 0x36 = 22050" "tom_header ! 0x49 = 0"
    by (simp_all add: be16_at_def tom_header_def nth_append)
  then show "parse_audio_header tom_header = Inr (22050, 1)"
    by (simp add: parse_audio_header_def header_rate_slice header_channel_byte example_lengths)
qed

lemma example_name: "entry_file_name example_container 1 296 = ''001_Kick.wav''"
proof -
  let ?f = "[CHR ''K'', CHR ''i'', CHR ''c'', CHR ''k''] @ replicate 12 (CHR 0x00)"
  have d: "decode_ascii_ignore (py_slice kick_header 0 16) = ?f"
    by (simp add: py_slice_prefix decode_ascii_ignore_def kick_header_def char_of_eq_iff)
  have s: "py_strip ?f = ?f"
    by (rule py_strip_keep) (simp_all add: isspace_values)
  have n: "extract_sample_name kick_header = ''Kick''"
    unfolding extract_sample_name_def extract_sample_name_try_def d s
    by (simp add: remove_nul_def)
  have k: "filter keeps ''Kick'' = ''Kick''"
    by (simp add: keeps_def py_isalnum_def)
  have t: "py_strip ''Kick'' = ''Kick''"
    by (rule py_strip_keep) (simp_all add: isspace_values)
  have c: "sanitize_filename ''Kick'' 1 = ''Kick''"
    unfolding sanitize_filename_unfold k t by simp
  have f: "format_03d 1 = ''001''"
    by (simp add: format_03d_three_digits char_of_eq_iff)
  show ?thesis
    unfolding entry_file_name_def example_headers n c f by simp
qed

lemma example_transformed:
  "process_pcm_data Little [0x12, 0x34, 0x56, 0x78] 2 = Inr [0x34, 0x12, 0x78, 0x56]"
  "process_pcm_data Little [0x9A, 0xBC] 1 = Inl ValueError"
  by (simp_all add: process_pcm_data_stereo process_pcm_data_mono even_trunc_def)

lemma example_outcomes:
  "extract_entry example_env example_container [(1, 296), (2, 380)] 0 1 296 fs
   = Written (fs @ [(''001_Kick.wav'', 2, 44100, [0x34, 0x12, 0x78, 0x56])])"
  "extract_entry example_env example_container [(1, 296), (2, 380)] 1 2 380 fs
   = Failed ValueError fs"
proof -
  have w: "write_wav example_env name channels rate frames fs
           = (None, fs @ [(name, channels, rate, frames)])" for name channels rate frames
    by (simp add: example_env_def)
  have o: "native_order example_env = Little" by (simp add: example_env_def)
  show "extract_entry example_env example_container [(1, 296), (2, 380)] 0 1 296 fs
        = Written (fs @ [(''001_Kick.wav'', 2, 44100, [0x34, 0x12, 0x78, 0x56])])"
    unfolding extract_entry_unfold example_payloads example_headers example_parsed o
      example_name w
    by (simp add: example_transformed)
  show "extract_entry example_env example_container [(1, 296), (2, 380)] 1 2 380 fs
        = Failed ValueError fs"
    unfolding extract_entry_unfold example_payloads example_headers example_parsed o
    by (simp add: example_transformed)
qed

lemma example_run:
  "extract_mta example_env []
   = Inr (1, [(''001_Kick.wav'', 2, 44100, [0x34, 0x12, 0x78, 0x56])])"
proof -
  have e: "enumerate 0 [(1 :: int, 296 :: int), (2, 380)] = [(0, 1, 296), (Suc 0, 2, 380)]"
    by simp
  have "extract_entries example_env example_container [(1, 296), (2, 380)]
          [(0, 1, 296), (Suc 0, 2, 380)] [] 0
        = (1, [(''001_Kick.wav'', 2, 44100, [0x34, 0x12, 0x78, 0x56])])"
    using example_outcomes (2) [of "[(''001_Kick.wav'', 2, 44100, [0x34, 0x12, 0x78, 0x56])]"]
    by (simp add: example_outcomes (1))
  then show ?thesis
    unfolding extract_mta_def
    by (simp add: example_env_def example_dwav example_entries)
qed

theorem extract_mta_counts_written_witness:
  "path_exists example_env []
   \<and> read_bytes example_env [] = Inr example_container
   \<and> find_dwav_section example_container = Some 200
   \<and> parse_audio_entries example_container 200 = [(1, 296), (2, 380)]
   \<and> mkdir example_env [] = Inr []
   \<and> extract_mta example_env []
       = Inr (1, [(''001_Kick.wav'', 2, 44100, [0x34, 0x12, 0x78, 0x56])])
   \<and> state_before example_env example_container [(1, 296), (2, 380)] [] 2
       = (1, [(''001_Kick.wav'', 2, 44100, [0x34, 0x12, 0x78, 0x56])])
   \<and> length (filter (\<lambda>k. is_written
                (entry_outcome example_env example_container [(1, 296), (2, 380)] [] k))
              [0 ..< 2]) = 1"
proof -
  have h1: "path_exists example_env []"
    and h2: "read_bytes example_env [] = Inr example_container"
    and h6: "mkdir example_env [] = Inr []"
    by (simp_all add: example_env_def)
  have h5: "[(1 :: int, 296 :: int), (2, 380)] \<noteq> []" by simp
  note t = extract_mta_counts_written [OF h1 h2 example_dwav example_entries h5 h6]
  from t have a: "extract_mta example_env []
      = Inr (state_before example_env example_container [(1, 296), (2, 380)] []
               (length [(1 :: int, 296 :: int), (2, 380)]))"
    by (rule conjunct1)
  from t have b: "fst (state_before example_env example_container [(1, 296), (2, 380)] []
                        (length [(1 :: int, 296 :: int), (2, 380)]))
      = int (length (filter (\<lambda>k. is_written
                (entry_outcome example_env example_container [(1, 296), (2, 380)] [] k))
              [0 ..< length [(1 :: int, 296 :: int), (2, 380)]]))"
    by (rule conjunct2 [THEN conjunct1])
  have l: "length [(1 :: int, 296 :: int), (2, 380)] = 2" by simp
  from a have s: "state_before example_env example_container [(1, 296), (2, 380)] [] 2
       = (1, [(''001_Kick.wav'', 2, 44100, [0x34, 0x12, 0x78, 0x56])])"
    unfolding l example_run by simp
  from b have c: "length (filter (\<lambda>k. is_written
                (entry_outcome example_env example_container [(1, 296), (2, 380)] [] k))
              [0 ..< 2]) = 1"
    unfolding l s by simp
  from h1 h2 example_dwav example_entries h6 example_run s c show ?thesis
    by (intro conjI)
qed

end
